theory Spec2Isabelle
  imports Main "HOL-Library.Word"
begin

unbundle bit_operations_syntax

section \<open>Machine types\<close>

text \<open>
  Bytes, \<open>uint32_t\<close> and \<open>uint64_t\<close> are words of the matching width, so every
  arithmetic operation on them wraps as the C++ does. Buffer sizes and loop indices of
  type \<open>size_t\<close> that only count positions of a buffer held in memory are natural
  numbers. A raw pointer \<open>const uint8_t*\<close> is the list of the bytes readable from it.
\<close>

type_synonym u8 = "8 word"
type_synonym u32 = "32 word"
type_synonym u64 = "64 word"

section \<open>The banded LSH index (lsh.h, lsh.cc)\<close>

text \<open>
  \<open>std::unordered_map<uint64_t, std::vector<uint32_t>>\<close> is an association list
  with one entry per key; its iteration order is not fixed by the C++ standard, and the
  model iterates in the order in which the keys were first inserted.
\<close>

type_synonym bucket_map = "(u64 \<times> u32 list) list"

record LSHIndex =
  numBands :: u32
  bitsPerBand :: u32
  bytesPerBand :: u32
  buckets :: "bucket_map list"

text \<open>The constructor: \<open>bytesPerBand_((bitsPerBand + 7) / 8)\<close> is 32-bit arithmetic.\<close>

definition new_LSHIndex :: "u32 \<Rightarrow> u32 \<Rightarrow> LSHIndex" where
  "new_LSHIndex nb bpb =
     \<lparr> numBands = nb, bitsPerBand = bpb, bytesPerBand = (bpb + 7) div 8,
       buckets = replicate (unat nb) [] \<rparr>"

text \<open>\<open>static_cast<size_t>(x) * y\<close> for two 32-bit operands, computed in 64 bits.\<close>

definition size_mul :: "u32 \<Rightarrow> u32 \<Rightarrow> u64" where
  "size_mul x y = ucast x * ucast y"

text \<open>
  \<open>size_t requiredBytes = (static_cast<size_t>(numBands_) * bitsPerBand_ + 7) / 8\<close>,
  as \<open>add\<close> and \<open>findCandidates\<close> compute it.
\<close>

definition requiredBytes :: "LSHIndex \<Rightarrow> nat" where
  "requiredBytes idx = unat ((size_mul (numBands idx) (bitsPerBand idx) + 7) div 8)"

text \<open>
  Reading \<open>p[k]\<close> through a raw pointer: \<open>None\<close> stands for a read outside the
  buffer, which is undefined behaviour in the source.
\<close>

definition read_byte :: "u8 list \<Rightarrow> nat \<Rightarrow> u8 option" where
  "read_byte p k = (if k < length p then Some (p ! k) else None)"

text \<open>
  The loop of \<open>extractBandHash\<close>:
  \<open>hash |= static_cast<uint64_t>(signature[byteOffset + i]) << (i * 8)\<close>
  for the values of \<open>i\<close> in the list.
\<close>

fun extract_loop :: "u8 list \<Rightarrow> nat \<Rightarrow> nat list \<Rightarrow> u64 \<Rightarrow> u64 option" where
  "extract_loop signature byteOffset [] hash = Some hash"
| "extract_loop signature byteOffset (i # ks) hash =
     (case read_byte signature (byteOffset + i) of
        None \<Rightarrow> None
      | Some v \<Rightarrow> extract_loop signature byteOffset ks (hash OR push_bit (i * 8) (ucast v)))"

definition bytesToRead :: "LSHIndex \<Rightarrow> nat" where
  "bytesToRead idx = unat (min (bytesPerBand idx) 8)"

definition byteOffset :: "LSHIndex \<Rightarrow> u32 \<Rightarrow> nat" where
  "byteOffset idx bandIndex = unat (size_mul bandIndex (bitsPerBand idx)) div 8"

definition extractBandHash :: "LSHIndex \<Rightarrow> u8 list \<Rightarrow> u32 \<Rightarrow> u64 option" where
  "extractBandHash idx signature bandIndex =
     (case extract_loop signature (byteOffset idx bandIndex) [0..<bytesToRead idx] 0 of
        None \<Rightarrow> None
      | Some hash \<Rightarrow>
          Some (if bitsPerBand idx < 64
                then hash AND (push_bit (unat (bitsPerBand idx)) 1 - 1)
                else hash))"

text \<open>
  \<open>buckets_[b][bandHash].push_back(id)\<close>: \<open>operator[]\<close> creates an empty posting
  list for a key that is not there yet.
\<close>

fun bucket_push :: "bucket_map \<Rightarrow> u64 \<Rightarrow> u32 \<Rightarrow> bucket_map" where
  "bucket_push [] h i = [(h, [i])]"
| "bucket_push ((k, ids) # m) h i =
     (if k = h then (k, ids @ [i]) # m else (k, ids) # bucket_push m h i)"

text \<open>\<open>bucket.find(bandHash)\<close>.\<close>

fun bucket_find :: "bucket_map \<Rightarrow> u64 \<Rightarrow> u32 list option" where
  "bucket_find [] h = None"
| "bucket_find ((k, ids) # m) h = (if k = h then Some ids else bucket_find m h)"

text \<open>
  The band loop of \<open>add\<close>, for the bands in the list. The loop variable is a
  \<open>uint32_t\<close> below \<open>numBands_\<close>, so it never wraps.
\<close>

fun add_loop :: "LSHIndex \<Rightarrow> u32 \<Rightarrow> u8 list \<Rightarrow> nat list \<Rightarrow> LSHIndex option" where
  "add_loop idx ident signature [] = Some idx"
| "add_loop idx ident signature (b # bs) =
     (case extractBandHash idx signature (of_nat b) of
        None \<Rightarrow> None
      | Some bandHash \<Rightarrow>
          add_loop (idx\<lparr>buckets := (buckets idx)[b := bucket_push (buckets idx ! b) bandHash ident]\<rparr>)
            ident signature bs)"

definition add :: "LSHIndex \<Rightarrow> u32 \<Rightarrow> u8 list \<Rightarrow> nat \<Rightarrow> LSHIndex option" where
  "add idx ident signature signatureBytes =
     (if signatureBytes < requiredBytes idx then Some idx
      else add_loop idx ident signature [0..<unat (numBands idx)])"

text \<open>
  \<open>std::unordered_set<uint32_t>\<close> is a list without duplicates; \<open>insert\<close> leaves the
  set alone when the element is already there.
\<close>

definition set_insert :: "u32 \<Rightarrow> u32 list \<Rightarrow> u32 list" where
  "set_insert x s = (if x \<in> set s then s else s @ [x])"

fun findCandidates_loop :: "LSHIndex \<Rightarrow> u8 list \<Rightarrow> nat list \<Rightarrow> u32 list \<Rightarrow> u32 list option" where
  "findCandidates_loop idx signature [] candidates = Some candidates"
| "findCandidates_loop idx signature (b # bs) candidates =
     (case extractBandHash idx signature (of_nat b) of
        None \<Rightarrow> None
      | Some bandHash \<Rightarrow>
          (case bucket_find (buckets idx ! b) bandHash of
             None \<Rightarrow> findCandidates_loop idx signature bs candidates
           | Some ids \<Rightarrow> findCandidates_loop idx signature bs (fold set_insert ids candidates)))"

definition findCandidates :: "LSHIndex \<Rightarrow> u8 list \<Rightarrow> nat \<Rightarrow> u32 list option" where
  "findCandidates idx signature signatureBytes =
     (if signatureBytes < requiredBytes idx then Some []
      else findCandidates_loop idx signature [0..<unat (numBands idx)] [])"

text \<open>
  \<open>clear\<close> empties every bucket map in place; the vector of \<open>numBands\<close> maps stays.
\<close>

definition clear :: "LSHIndex \<Rightarrow> LSHIndex" where
  "clear idx = idx\<lparr>buckets := map (\<lambda>bucket. []) (buckets idx)\<rparr>"

text \<open>
  \<open>Stats\<close>. The field \<open>avgBucketSize\<close> is a \<open>double\<close> quotient; the model keeps
  its two integer operands, \<open>totalBucketSizes\<close> and \<open>totalBuckets\<close>, instead.
\<close>

record Stats =
  numSignatures :: u32
  statNumBands :: u32
  statBitsPerBand :: u32
  totalBuckets :: u32
  avgBucketSizeOperands :: "u64 \<times> u32"
  maxBucketSize :: u32

text \<open>\<open>static_cast<uint32_t>(ids.size())\<close>.\<close>

definition size32 :: "'a list \<Rightarrow> u32" where
  "size32 xs = of_nat (length xs)"

definition getStats :: "LSHIndex \<Rightarrow> Stats" where
  "getStats idx =
     (let tb = fold (\<lambda>bandBuckets acc. acc + size32 bandBuckets) (buckets idx) 0;
          sizes = concat (map (map (\<lambda>(hash, ids). size32 ids)) (buckets idx));
          totalBucketSizes = fold (\<lambda>sz acc. acc + ucast sz) sizes (0 :: u64);
          maxBucket = fold (\<lambda>sz acc. max acc sz) sizes 0;
          totalSignatures =
            (case buckets idx of
               [] \<Rightarrow> 0
             | band0 # rest \<Rightarrow> fold (\<lambda>(hash, ids) acc. acc + size32 ids) band0 0)
      in \<lparr> numSignatures = totalSignatures, statNumBands = numBands idx,
           statBitsPerBand = bitsPerBand idx, totalBuckets = tb,
           avgBucketSizeOperands = (totalBucketSizes, tb), maxBucketSize = maxBucket \<rparr>)"

section \<open>Population count (simd_compat.h)\<close>

text \<open>
  \<open>popcount64\<close> is compiled to a hardware population count where the compiler offers
  one, and to the portable branch below otherwise. The model is the portable branch;
  lemma \<open>popcount64_bit_count\<close> shows that it returns the number of set bits, which
  is what the intrinsics of the other two branches return.
\<close>

definition popcount64 :: "u64 \<Rightarrow> u32" where
  "popcount64 x0 =
     (let x1 = x0 - (drop_bit 1 x0 AND 0x5555555555555555);
          x2 = (x1 AND 0x3333333333333333) + (drop_bit 2 x1 AND 0x3333333333333333);
          x3 = (x2 + drop_bit 4 x2) AND 0x0f0f0f0f0f0f0f0f
      in ucast (drop_bit 56 (x3 * 0x0101010101010101)))"

section \<open>The Hamming kernel (hamming.cc)\<close>

text \<open>
  \<open>*a64++\<close>: the eight bytes at byte offset \<open>i\<close> read as one 64-bit word. The
  byte at the lowest address is the least significant one (little-endian hosts); the
  population count of the word does not depend on the byte order.
\<close>

definition load64 :: "u8 list \<Rightarrow> nat \<Rightarrow> u64" where
  "load64 p i = horner_sum ucast 256 (map (\<lambda>k. p ! (i + k)) [0..<8])"

text \<open>The byte-level population count of the tail loop, on a \<open>uint8_t\<close>.\<close>

definition byte_popcount :: "u8 \<Rightarrow> u8" where
  "byte_popcount v0 =
     (let v1 = (v0 AND 0x55) + (drop_bit 1 v0 AND 0x55);
          v2 = (v1 AND 0x33) + (drop_bit 2 v1 AND 0x33)
      in (v2 AND 0x0f) + (drop_bit 4 v2 AND 0x0f))"

text \<open>The first loop: \<open>for (; i < len64; i += 8) dist += popcount64(*a64++ ^ *b64++)\<close>.\<close>

function chunk_loop :: "u8 list \<Rightarrow> u8 list \<Rightarrow> nat \<Rightarrow> nat \<Rightarrow> u32 \<Rightarrow> nat \<times> u32" where
  "chunk_loop a b len64 i dist =
     (if i < len64
      then chunk_loop a b len64 (i + 8) (dist + popcount64 (load64 a i XOR load64 b i))
      else (i, dist))"
  by pat_completeness auto
termination
  by (relation "measure (\<lambda>(a, b, len64, i, dist). len64 - i)") auto

declare chunk_loop.simps [simp del]

text \<open>The second loop, over the bytes that are left.\<close>

function tail_loop :: "u8 list \<Rightarrow> u8 list \<Rightarrow> nat \<Rightarrow> nat \<Rightarrow> u32 \<Rightarrow> u32" where
  "tail_loop a b len i dist =
     (if i < len
      then tail_loop a b len (i + 1) (dist + ucast (byte_popcount (a ! i XOR b ! i)))
      else dist)"
  by pat_completeness auto
termination
  by (relation "measure (\<lambda>(a, b, len, i, dist). len - i)") auto

declare tail_loop.simps [simp del]

text \<open>
  \<open>hamming_distance(a, b, len)\<close>; \<open>len & ~7ULL\<close> is \<open>len\<close> rounded down to a
  multiple of 8. The caller guarantees that both buffers hold \<open>len\<close> bytes.
\<close>

definition hamming_distance :: "u8 list \<Rightarrow> u8 list \<Rightarrow> nat \<Rightarrow> u32" where
  "hamming_distance a b len =
     (let len64 = len - len mod 8;
          (i, dist) = chunk_loop a b len64 0 0
      in tail_loop a b len i dist)"

text \<open>
  The reference: the number of bit positions, byte \<open>i\<close> and bit \<open>k\<close> of it, in which
  the first \<open>len\<close> bytes of the two strings differ.
\<close>

definition differing_bits :: "u8 list \<Rightarrow> u8 list \<Rightarrow> nat \<Rightarrow> nat" where
  "differing_bits a b len =
     card {(i, k). i < len \<and> k < 8 \<and> bit (a ! i) k \<noteq> bit (b ! i) k}"

text \<open>
  \<open>find_similar_pairs\<close> fills three parallel output arrays and returns the number of
  entries written; the model returns the list of the written records \<open>(i, j, dist)\<close>,
  whose length is the returned count. The signatures lie one after the other in
  one buffer, \<open>signatures + i * sig_len\<close> being the \<open>i\<close>-th.
\<close>

type_synonym pair_record = "u32 \<times> u32 \<times> u32"

definition sig_at :: "u8 list \<Rightarrow> nat \<Rightarrow> nat \<Rightarrow> u8 list" where
  "sig_at signatures sig_len i = drop (i * sig_len) signatures"

definition pair_dist :: "u8 list \<Rightarrow> nat \<Rightarrow> nat \<Rightarrow> nat \<Rightarrow> u32" where
  "pair_dist signatures sig_len i j =
     hamming_distance (sig_at signatures sig_len i) (sig_at signatures sig_len j) sig_len"

text \<open>The single-threaded branch: both loops stop as soon as \<open>count\<close> reaches \<open>max_pairs\<close>.\<close>

function inner_loop ::
  "u8 list \<Rightarrow> nat \<Rightarrow> nat \<Rightarrow> u32 \<Rightarrow> nat \<Rightarrow> nat \<Rightarrow> nat \<Rightarrow> pair_record list \<Rightarrow> pair_record list" where
  "inner_loop signatures n sig_len threshold max_pairs i j out =
     (if j < n \<and> length out < max_pairs
      then let dist = pair_dist signatures sig_len i j
           in inner_loop signatures n sig_len threshold max_pairs i (j + 1)
                (if dist \<le> threshold then out @ [(of_nat i, of_nat j, dist)] else out)
      else out)"
  by pat_completeness auto
termination
  by (relation "measure (\<lambda>(s, n, l, t, m, i, j, out). n - j)") auto

declare inner_loop.simps [simp del]

function outer_loop ::
  "u8 list \<Rightarrow> nat \<Rightarrow> nat \<Rightarrow> u32 \<Rightarrow> nat \<Rightarrow> nat \<Rightarrow> pair_record list \<Rightarrow> pair_record list" where
  "outer_loop signatures n sig_len threshold max_pairs i out =
     (if i < n \<and> length out < max_pairs
      then outer_loop signatures n sig_len threshold max_pairs (i + 1)
             (inner_loop signatures n sig_len threshold max_pairs i (i + 1) out)
      else out)"
  by pat_completeness auto
termination
  by (relation "measure (\<lambda>(s, n, l, t, m, i, out). n - i)") auto

declare outer_loop.simps [simp del]

definition find_similar_pairs ::
  "u8 list \<Rightarrow> nat \<Rightarrow> nat \<Rightarrow> u32 \<Rightarrow> nat \<Rightarrow> pair_record list" where
  "find_similar_pairs signatures n sig_len threshold max_pairs =
     outer_loop signatures n sig_len threshold max_pairs 0 []"

text \<open>
  The OpenMP branch. Each thread runs the iterations \<open>i\<close> that the dynamic schedule
  hands to it and appends the qualifying pairs of each to its own vectors; the schedule
  is the parameter \<open>sched\<close>, one list of iterations per thread, in the order in which
  the thread runs them. The sequential merge then copies from thread after thread until
  \<open>max_pairs\<close> records are written.
\<close>

definition row_pairs :: "u8 list \<Rightarrow> nat \<Rightarrow> nat \<Rightarrow> u32 \<Rightarrow> nat \<Rightarrow> pair_record list" where
  "row_pairs signatures n sig_len threshold i =
     map (\<lambda>j. (of_nat i, of_nat j, pair_dist signatures sig_len i j))
       (filter (\<lambda>j. pair_dist signatures sig_len i j \<le> threshold) [i + 1..<n])"

definition thread_local_pairs ::
  "u8 list \<Rightarrow> nat \<Rightarrow> nat \<Rightarrow> u32 \<Rightarrow> nat list \<Rightarrow> pair_record list" where
  "thread_local_pairs signatures n sig_len threshold iterations =
     concat (map (row_pairs signatures n sig_len threshold) iterations)"

fun merge_threads :: "pair_record list list \<Rightarrow> nat \<Rightarrow> pair_record list \<Rightarrow> pair_record list" where
  "merge_threads [] max_pairs out = out"
| "merge_threads (local # locals) max_pairs out =
     (if length out < max_pairs
      then merge_threads locals max_pairs
             (out @ take (min (length local) (max_pairs - length out)) local)
      else out)"

definition find_similar_pairs_omp ::
  "nat list list \<Rightarrow> u8 list \<Rightarrow> nat \<Rightarrow> nat \<Rightarrow> u32 \<Rightarrow> nat \<Rightarrow> pair_record list" where
  "find_similar_pairs_omp sched signatures n sig_len threshold max_pairs =
     merge_threads (map (thread_local_pairs signatures n sig_len threshold) sched) max_pairs []"

section \<open>Verified queries (lsh.cc)\<close>

text \<open>
  The verification loop of \<open>querySimilar\<close> over the candidate set, and the final
  \<open>std::sort\<close> by distance, for which the model takes a stable sort (the order of
  equal distances is not fixed by the source).
\<close>

fun verify_loop ::
  "u8 list \<Rightarrow> nat \<Rightarrow> u8 list list \<Rightarrow> u32 \<Rightarrow> u32 list \<Rightarrow> (u32 \<times> u32) list \<Rightarrow> (u32 \<times> u32) list" where
  "verify_loop signature signatureBytes allSignatures threshold [] results = results"
| "verify_loop signature signatureBytes allSignatures threshold (ident # ids) results =
     (if unat ident < length allSignatures
      then let candidateSig = allSignatures ! unat ident;
               compareBytes = min signatureBytes (length candidateSig);
               dist = hamming_distance signature candidateSig compareBytes
           in verify_loop signature signatureBytes allSignatures threshold ids
                (if dist \<le> threshold then results @ [(ident, dist)] else results)
      else verify_loop signature signatureBytes allSignatures threshold ids results)"

definition querySimilar ::
  "LSHIndex \<Rightarrow> u8 list \<Rightarrow> nat \<Rightarrow> u8 list list \<Rightarrow> u32 \<Rightarrow> (u32 \<times> u32) list option" where
  "querySimilar idx signature signatureBytes allSignatures threshold =
     (case findCandidates idx signature signatureBytes of
        None \<Rightarrow> None
      | Some candidates \<Rightarrow>
          Some (sort_key snd
                  (verify_loop signature signatureBytes allSignatures threshold candidates [])))"

section \<open>The handle registry (addon.cc)\<close>

text \<open>
  The JavaScript values that reach the addon. \<open>JNumber n\<close> is a number whose
  \<open>Uint32Value()\<close> is \<open>n\<close>; \<open>info[k]\<close> beyond the arguments passed is
  \<open>undefined\<close>.
\<close>

datatype js_value = JNumber u32 | JBuffer "u8 list" | JArray "js_value list" | JUndefined

fun IsNumber :: "js_value \<Rightarrow> bool" where
  "IsNumber (JNumber n) = True"
| "IsNumber v = False"

fun IsBuffer :: "js_value \<Rightarrow> bool" where
  "IsBuffer (JBuffer d) = True"
| "IsBuffer v = False"

fun IsArray :: "js_value \<Rightarrow> bool" where
  "IsArray (JArray vs) = True"
| "IsArray v = False"

definition arg :: "js_value list \<Rightarrow> nat \<Rightarrow> js_value" where
  "arg info k = (if k < length info then info ! k else JUndefined)"

text \<open>
  The exceptions: \<open>Napi::TypeError\<close> and \<open>Napi::Error\<close> with their messages,
  \<open>ConversionError\<close> for the failure of the binding layer itself when
  \<open>LSHGetCandidates\<close>, which checks no argument kind, converts a value of the wrong
  kind, and \<open>OutOfBounds\<close> for a read outside a signature buffer (undefined behaviour
  in the source, not an exception).
\<close>

datatype napi_error = TypeError string | Error string | ConversionError | OutOfBounds

record registry =
  g_lshIndexes :: "u32 \<rightharpoonup> LSHIndex"
  g_lshSignatures :: "u32 \<rightharpoonup> u8 list list"
  g_nextHandle :: u32

definition initial_registry :: registry where
  "initial_registry =
     \<lparr> g_lshIndexes = Map.empty, g_lshSignatures = Map.empty, g_nextHandle = 1 \<rparr>"

text \<open>\<open>g_lshSignatures[handle]\<close>: \<open>operator[]\<close> of \<open>std::map\<close> yields an empty store for a new key.\<close>

definition signatures_of :: "registry \<Rightarrow> u32 \<Rightarrow> u8 list list" where
  "signatures_of reg handle = (case g_lshSignatures reg handle of None \<Rightarrow> [] | Some sigs \<Rightarrow> sigs)"

text \<open>\<open>hamming(bufferA, bufferB)\<close>, the public distance of two Buffers of equal length.\<close>

definition Hamming :: "js_value list \<Rightarrow> napi_error + u32" where
  "Hamming info =
     (if length info < 2 then Inl (TypeError ''Expected 2 arguments: bufferA, bufferB'')
      else case (arg info 0, arg info 1) of
        (JBuffer bufA, JBuffer bufB) \<Rightarrow>
          if length bufA \<noteq> length bufB then Inl (TypeError ''Buffers must have equal length'')
          else Inr (hamming_distance bufA bufB (length bufA))
      | (u, v) \<Rightarrow> Inl (TypeError ''Arguments must be Buffers''))"

definition CreateLSHIndex :: "js_value list \<Rightarrow> registry \<Rightarrow> u32 \<times> registry" where
  "CreateLSHIndex info reg =
     (let nb = (case arg info 0 of JNumber n \<Rightarrow> n | _ \<Rightarrow> 32);
          bpb = (case arg info 1 of JNumber n \<Rightarrow> n | _ \<Rightarrow> 16);
          handle = g_nextHandle reg
      in (handle,
          \<lparr> g_lshIndexes = (g_lshIndexes reg)(handle \<mapsto> new_LSHIndex nb bpb),
            g_lshSignatures = (g_lshSignatures reg)(handle \<mapsto> []),
            g_nextHandle = handle + 1 \<rparr>))"

definition LSHAdd :: "js_value list \<Rightarrow> registry \<Rightarrow> (napi_error + u32) \<times> registry" where
  "LSHAdd info reg =
     (if length info < 2 then (Inl (TypeError ''Expected 2 arguments: handle, signature''), reg)
      else case (arg info 0, arg info 1) of
        (JNumber handle, JBuffer sig) \<Rightarrow>
          (case g_lshIndexes reg handle of
             None \<Rightarrow> (Inl (Error ''Invalid LSH index handle''), reg)
           | Some index \<Rightarrow>
               let sigs = signatures_of reg handle;
                   ident = size32 sigs;
                   sigs' = sigs @ [sig];
                   reg' = reg\<lparr>g_lshSignatures := (g_lshSignatures reg)(handle \<mapsto> sigs')\<rparr>
               in (case add index ident sig (length sig) of
                     None \<Rightarrow> (Inl OutOfBounds, reg')
                   | Some index' \<Rightarrow>
                       (Inr ident, reg'\<lparr>g_lshIndexes := (g_lshIndexes reg)(handle \<mapsto> index')\<rparr>)))
      | (JNumber handle, v) \<Rightarrow> (Inl (TypeError ''Signature must be a Buffer''), reg)
      | (u, v) \<Rightarrow> (Inl (TypeError ''Handle must be a number''), reg))"

text \<open>
  The loop of \<open>LSHAddBatch\<close>. An element that is not a Buffer ends the call with a
  \<open>TypeError\<close>; the signatures added before it stay added.
\<close>

fun addBatch_loop ::
  "LSHIndex \<Rightarrow> u8 list list \<Rightarrow> js_value list \<Rightarrow> u32 list
     \<Rightarrow> (napi_error + u32 list) \<times> LSHIndex \<times> u8 list list" where
  "addBatch_loop index sigs [] result = (Inr result, index, sigs)"
| "addBatch_loop index sigs (JBuffer buf # vals) result =
     (let ident = size32 sigs; sigs' = sigs @ [buf]
      in case add index ident buf (length buf) of
           None \<Rightarrow> (Inl OutOfBounds, index, sigs')
         | Some index' \<Rightarrow> addBatch_loop index' sigs' vals (result @ [ident]))"
| "addBatch_loop index sigs (v # vals) result =
     (Inl (TypeError ''All array elements must be Buffers''), index, sigs)"

definition LSHAddBatch :: "js_value list \<Rightarrow> registry \<Rightarrow> (napi_error + u32 list) \<times> registry" where
  "LSHAddBatch info reg =
     (if length info < 2
      then (Inl (TypeError ''Expected 2 arguments: handle, signaturesArray''), reg)
      else case (arg info 0, arg info 1) of
        (JNumber handle, JArray sigArray) \<Rightarrow>
          (case g_lshIndexes reg handle of
             None \<Rightarrow> (Inl (Error ''Invalid LSH index handle''), reg)
           | Some index \<Rightarrow>
               (case addBatch_loop index (signatures_of reg handle) sigArray [] of
                  (res, index', sigs') \<Rightarrow>
                    (res, reg\<lparr>g_lshIndexes := (g_lshIndexes reg)(handle \<mapsto> index'),
                              g_lshSignatures := (g_lshSignatures reg)(handle \<mapsto> sigs')\<rparr>)))
      | (JNumber handle, v) \<Rightarrow> (Inl (TypeError ''Second argument must be an Array of Buffers''), reg)
      | (u, v) \<Rightarrow> (Inl (TypeError ''Handle must be a number''), reg))"

definition LSHQuery ::
  "js_value list \<Rightarrow> registry \<Rightarrow> (napi_error + (u32 \<times> u32) list) \<times> registry" where
  "LSHQuery info reg =
     (if length info < 3
      then (Inl (TypeError ''Expected 3 arguments: handle, signature, threshold''), reg)
      else case (arg info 0, arg info 1, arg info 2) of
        (JNumber handle, JBuffer sig, JNumber threshold) \<Rightarrow>
          (case (g_lshIndexes reg handle, g_lshSignatures reg handle) of
             (Some index, Some sigs) \<Rightarrow>
               (case querySimilar index sig (length sig) sigs threshold of
                  None \<Rightarrow> (Inl OutOfBounds, reg)
                | Some results \<Rightarrow> (Inr results, reg))
           | _ \<Rightarrow> (Inl (Error ''Invalid LSH index handle''), reg))
      | (JNumber handle, JBuffer sig, w) \<Rightarrow> (Inl (TypeError ''Threshold must be a number''), reg)
      | (JNumber handle, v, w) \<Rightarrow> (Inl (TypeError ''Signature must be a Buffer''), reg)
      | (u, v, w) \<Rightarrow> (Inl (TypeError ''Handle must be a number''), reg))"

definition LSHGetCandidates ::
  "js_value list \<Rightarrow> registry \<Rightarrow> (napi_error + u32 list) \<times> registry" where
  "LSHGetCandidates info reg =
     (if length info < 2 then (Inl (TypeError ''Expected 2 arguments: handle, signature''), reg)
      else case (arg info 0, arg info 1) of
        (JNumber handle, JBuffer sig) \<Rightarrow>
          (case g_lshIndexes reg handle of
             None \<Rightarrow> (Inl (Error ''Invalid LSH index handle''), reg)
           | Some index \<Rightarrow>
               (case findCandidates index sig (length sig) of
                  None \<Rightarrow> (Inl OutOfBounds, reg)
                | Some candidates \<Rightarrow> (Inr candidates, reg)))
      | (u, v) \<Rightarrow> (Inl ConversionError, reg))"

definition LSHGetStats :: "js_value list \<Rightarrow> registry \<Rightarrow> (napi_error + Stats) \<times> registry" where
  "LSHGetStats info reg =
     (case arg info 0 of
        JNumber handle \<Rightarrow>
          (case g_lshIndexes reg handle of
             None \<Rightarrow> (Inl (Error ''Invalid LSH index handle''), reg)
           | Some index \<Rightarrow> (Inr (getStats index), reg))
      | v \<Rightarrow> (Inl (TypeError ''Expected handle argument''), reg))"

text \<open>
  \<open>LSHDestroy\<close> erases the handle from both maps and returns \<open>undefined\<close>;
  \<open>std::map::erase\<close> of a key that is not there does nothing.
\<close>

definition LSHDestroy :: "js_value list \<Rightarrow> registry \<Rightarrow> (napi_error + unit) \<times> registry" where
  "LSHDestroy info reg =
     (case arg info 0 of
        JNumber handle \<Rightarrow>
          (Inr (), reg\<lparr>g_lshIndexes := (g_lshIndexes reg)(handle := None),
                       g_lshSignatures := (g_lshSignatures reg)(handle := None)\<rparr>)
      | v \<Rightarrow> (Inl (TypeError ''Expected handle argument''), reg))"

section \<open>Invariants\<close>

text \<open>
  What the constructor establishes and no method changes: \<open>bytesPerBand_\<close> is derived
  from \<open>bitsPerBand_\<close>, and there is one bucket map per band.
\<close>

definition index_inv :: "LSHIndex \<Rightarrow> bool" where
  "index_inv idx \<longleftrightarrow>
     bytesPerBand idx = (bitsPerBand idx + 7) div 8 \<and> length (buckets idx) = unat (numBands idx)"

definition registry_inv :: "registry \<Rightarrow> bool" where
  "registry_inv reg \<longleftrightarrow>
     (\<forall>handle index. g_lshIndexes reg handle = Some index \<longrightarrow> index_inv index)"

section \<open>Histories of an index and of a handle\<close>

text \<open>
  The sum of the posting-list lengths of one band, and the states an index reaches:
  a constructor followed by calls of \<open>add\<close>, each with the length of its buffer as
  the addon passes it, and of \<open>clear\<close>.
\<close>

definition band_total :: "bucket_map \<Rightarrow> nat" where
  "band_total m = sum_list (map (\<lambda>(h, ids). length ids) m)"

datatype index_op = Add u32 "u8 list" | Clear

fun run_ops :: "LSHIndex \<Rightarrow> index_op list \<Rightarrow> LSHIndex option" where
  "run_ops idx [] = Some idx"
| "run_ops idx (Add ident signature # ops) =
     (case add idx ident signature (length signature) of
        None \<Rightarrow> None
      | Some idx' \<Rightarrow> run_ops idx' ops)"
| "run_ops idx (Clear # ops) = run_ops (clear idx) ops"

text \<open>
  The number of adds that were not skipped since the construction or the last
  \<open>clear\<close>, counted from \<open>n\<close>; \<open>required\<close> is the index's \<open>requiredBytes\<close>.
\<close>

fun accepted_adds :: "nat \<Rightarrow> index_op list \<Rightarrow> nat \<Rightarrow> nat" where
  "accepted_adds required [] n = n"
| "accepted_adds required (Add ident signature # ops) n =
     accepted_adds required ops (if length signature < required then n else n + 1)"
| "accepted_adds required (Clear # ops) n = accepted_adds required ops 0"

text \<open>Successive \<open>lshAdd\<close> calls on one handle, with their results in call order.\<close>

fun lshAdd_seq :: "u32 \<Rightarrow> u8 list list \<Rightarrow> registry \<Rightarrow> (napi_error + u32) list \<times> registry" where
  "lshAdd_seq handle [] reg = ([], reg)"
| "lshAdd_seq handle (sig # sigs) reg =
     (case LSHAdd [JNumber handle, JBuffer sig] reg of
        (res, reg') \<Rightarrow> (case lshAdd_seq handle sigs reg' of (ress, reg'') \<Rightarrow> (res # ress, reg'')))"

section \<open>Auxiliary notions for the population count\<close>

text \<open>
  The population count of a natural number, by its binary digits, and the functions
  with which the proofs follow the word-parallel count byte by byte: \<open>lanes n f x\<close>
  applies \<open>f\<close> to each of the \<open>n\<close> low bytes of \<open>x\<close>, \<open>lane_sum\<close> adds the
  results up, \<open>rep_byte n m\<close> is the byte \<open>m\<close> repeated \<open>n\<close> times, and
  \<open>swar_pairs\<close>, \<open>swar_nibbles\<close> and \<open>swar_bytes\<close> are the three masking steps
  of \<open>popcount64\<close> on one byte. \<open>popcount64_nat\<close> is \<open>popcount64\<close> on the
  unsigned value of its argument.
\<close>

fun lanes :: "nat \<Rightarrow> (nat \<Rightarrow> nat) \<Rightarrow> nat \<Rightarrow> nat" where
  "lanes 0 f x = 0"
| "lanes (Suc n) f x = f (x mod 256) + 256 * lanes n f (x div 256)"

fun lane_sum :: "nat \<Rightarrow> (nat \<Rightarrow> nat) \<Rightarrow> nat \<Rightarrow> nat" where
  "lane_sum 0 f x = 0"
| "lane_sum (Suc n) f x = f (x mod 256) + lane_sum n f (x div 256)"

definition swar_pairs :: "nat \<Rightarrow> nat" where "swar_pairs c = c - (drop_bit 1 c AND 0x55)"
definition swar_nibbles :: "nat \<Rightarrow> nat" where "swar_nibbles c = (swar_pairs c AND 0x33) + (drop_bit 2 (swar_pairs c) AND 0x33)"
definition swar_bytes :: "nat \<Rightarrow> nat" where "swar_bytes c = (swar_nibbles c + drop_bit 4 (swar_nibbles c)) AND 0x0f"

fun bit_count :: "nat \<Rightarrow> nat" where
  "bit_count n = (if n = 0 then 0 else n mod 2 + bit_count (n div 2))"

declare bit_count.simps [simp del]

fun rep_byte :: "nat \<Rightarrow> nat \<Rightarrow> nat" where
  "rep_byte 0 m = 0"
| "rep_byte (Suc n) m = m + 256 * rep_byte n m"

definition popcount64_nat :: "nat \<Rightarrow> nat" where
  "popcount64_nat x0 =
     (let x1 = x0 - (drop_bit 1 x0 AND 0x5555555555555555);
          x2 = (x1 AND 0x3333333333333333) + (drop_bit 2 x1 AND 0x3333333333333333);
          x3 = (x2 + drop_bit 4 x2) AND 0x0f0f0f0f0f0f0f0f
      in (x3 * 0x0101010101010101) mod 2 ^ 64 div 2 ^ 56)"

text \<open>The byte-level count of the tail loop on the unsigned value of the byte.\<close>

definition byte_popcount_nat :: "nat \<Rightarrow> nat" where
  "byte_popcount_nat v0 =
     (let v1 = (v0 AND 0x55) + (drop_bit 1 v0 AND 0x55);
          v2 = (v1 AND 0x33) + (drop_bit 2 v1 AND 0x33)
      in (v2 AND 0x0f) + (drop_bit 4 v2 AND 0x0f))"

text \<open>The number of bits in which byte \<open>j\<close> of the two buffers differs.\<close>

definition byte_diff :: "u8 list \<Rightarrow> u8 list \<Rightarrow> nat \<Rightarrow> nat" where
  "byte_diff a b j = bit_count (unat (a ! j XOR b ! j))"

text \<open>The id \<open>ident\<close> is in the posting list of band \<open>b\<close> under the band-hash \<open>h\<close>.\<close>

definition posted :: "LSHIndex \<Rightarrow> nat \<Rightarrow> u64 \<Rightarrow> u32 \<Rightarrow> bool" where
  "posted idx b h ident \<longleftrightarrow>
     (case bucket_find (buckets idx ! b) h of None \<Rightarrow> False | Some ids \<Rightarrow> ident \<in> set ids)"

section \<open>Short signatures\<close>

lemma unat_u32_less: "unat (x :: u32) < 4294967296"
  using unsigned_less [of x, where 'a = nat] by simp

lemma unat_ucast_u32_u64: "unat (ucast (x :: u32) :: u64) = unat x"
  using unat_u32_less [of x] by (simp add: unsigned_ucast_eq take_bit_nat_eq_self)

lemma u32_prod_le: "unat (x :: u32) * unat (y :: u32) \<le> 4294967295 * 4294967295"
proof -
  have "unat x \<le> 4294967295" "unat y \<le> 4294967295"
    using unat_u32_less [of x] unat_u32_less [of y] by simp_all
  then show ?thesis by (rule mult_mono) simp_all
qed

text \<open>The 64-bit product of two 32-bit values does not wrap, and neither does adding 7.\<close>

lemma unat_size_mul: "unat (size_mul x y) = unat x * unat y"
proof -
  have "unat x * unat y < 2 ^ 64"
    using u32_prod_le [of x y] by simp
  then show ?thesis
    unfolding size_mul_def
    by (simp add: unat_mult_lem [THEN iffD1] unat_ucast_u32_u64)
qed

lemma unat_size_mul_plus7: "unat (size_mul x y + 7) = unat x * unat y + 7"
proof -
  have "unat (size_mul x y) + unat (7 :: u64) < 2 ^ 64"
    using u32_prod_le [of x y] by (simp add: unat_size_mul)
  then have "unat (size_mul x y + 7) = unat (size_mul x y) + unat (7 :: u64)"
    using unat_add_lem [of "size_mul x y" 7] by simp
  then show ?thesis by (simp add: unat_size_mul)
qed

lemma requiredBytes_eq:
  "requiredBytes idx = (unat (numBands idx) * unat (bitsPerBand idx) + 7) div 8"
  by (simp add: requiredBytes_def unat_div unat_size_mul_plus7)

text \<open>
  Claim C5. A signature of fewer than \<open>requiredBytes = \<lceil>B\<cdot>W/8\<rceil>\<close> bytes is skipped
  in silence: \<open>add\<close> returns the index as it was, every bucket map unchanged, and
  \<open>findCandidates\<close> returns the empty set; both calls return normally, whatever the
  buffer holds.
\<close>

theorem short_signature_skipped:
  assumes "signatureBytes < (unat (numBands idx) * unat (bitsPerBand idx) + 7) div 8"
  shows "add idx ident signature signatureBytes = Some idx
       \<and> findCandidates idx signature signatureBytes = Some []"
  using assms by (simp add: add_def findCandidates_def requiredBytes_eq)

theorem short_signature_skipped_witness:
  "(63 :: nat) < (unat (numBands (new_LSHIndex 32 16)) * unat (bitsPerBand (new_LSHIndex 32 16)) + 7) div 8
   \<and> add (new_LSHIndex 32 16) 5 (replicate 63 1) 63 = Some (new_LSHIndex 32 16)
   \<and> findCandidates (new_LSHIndex 32 16) (replicate 63 1) 63 = Some []"
proof -
  have h: "(63 :: nat) < (unat (numBands (new_LSHIndex 32 16)) * unat (bitsPerBand (new_LSHIndex 32 16)) + 7) div 8"
    by (simp add: new_LSHIndex_def)
  show ?thesis
    using h short_signature_skipped [OF h, of 5 "replicate 63 1"] by simp
qed

section \<open>The band extractor\<close>

lemma extract_loop_Some:
  "\<forall>i \<in> set ks. off + i < length s \<Longrightarrow> \<exists>h. extract_loop s off ks acc = Some h"
  by (induction ks arbitrary: acc) (auto simp: read_byte_def)

lemma extract_loop_cong:
  "\<forall>i \<in> set ks. off + i < length s \<and> off + i < length s' \<and> s' ! (off + i) = s ! (off + i)
   \<Longrightarrow> extract_loop s' off ks acc = extract_loop s off ks acc"
  by (induction ks arbitrary: acc) (auto simp: read_byte_def)

lemma unat_bytesPerBand:
  assumes "bytesPerBand idx = (bitsPerBand idx + 7) div 8" "bitsPerBand idx \<le> 64"
  shows "unat (bytesPerBand idx) = (unat (bitsPerBand idx) + 7) div 8"
proof -
  have w: "unat (bitsPerBand idx) \<le> 64"
    using assms(2) by (simp add: word_le_nat_alt)
  then have "unat (bitsPerBand idx) + unat (7 :: u32) < 2 ^ 32" by simp
  then have "unat (bitsPerBand idx + 7) = unat (bitsPerBand idx) + unat (7 :: u32)"
    using unat_add_lem [of "bitsPerBand idx" 7] by simp
  then show ?thesis by (simp add: assms(1) unat_div)
qed

lemma bytesToRead_eq:
  assumes "bytesPerBand idx = (bitsPerBand idx + 7) div 8" "bitsPerBand idx \<le> 64"
  shows "bytesToRead idx = min ((unat (bitsPerBand idx) + 7) div 8) 8"
proof -
  have "unat (min (bytesPerBand idx) 8) = min (unat (bytesPerBand idx)) (unat (8 :: u32))"
    by (simp add: min_def word_le_nat_alt)
  then show ?thesis
    by (simp add: bytesToRead_def unat_bytesPerBand [OF assms])
qed

lemma window_arith:
  fixes b w n :: nat
  assumes "b < n"
  shows "(b * w) div 8 + (w + 7) div 8 \<le> (n * w + 7) div 8"
proof -
  have "(b * w) div 8 + (w + 7) div 8 \<le> ((b + 1) * w + 7) div 8"
    by (simp add: algebra_simps)
  also have "\<dots> \<le> (n * w + 7) div 8"
  proof -
    have "(b + 1) * w \<le> n * w" using assms(1) by (intro mult_right_mono) simp_all
    then show ?thesis by (intro div_le_mono) simp
  qed
  finally show ?thesis .
qed

lemma mask_bound: "unat ((h :: u64) AND (2 ^ n - 1)) < 2 ^ n"
proof -
  have "h AND (2 ^ n - 1) = take_bit n h"
    by (simp add: take_bit_eq_mask mask_eq_exp_minus_1)
  then show ?thesis
    by (simp add: unsigned_take_bit_eq)
qed

lemma extractBandHash_window:
  assumes inv: "bytesPerBand idx = (bitsPerBand idx + 7) div 8"
    and w1: "1 \<le> bitsPerBand idx" and w64: "bitsPerBand idx \<le> 64"
    and b: "b < numBands idx"
  shows "byteOffset idx b = (unat b * unat (bitsPerBand idx)) div 8"
    and "bytesToRead idx = min ((unat (bitsPerBand idx) + 7) div 8) 8"
    and "byteOffset idx b + bytesToRead idx \<le> requiredBytes idx"
proof -
  show o: "byteOffset idx b = (unat b * unat (bitsPerBand idx)) div 8"
    by (simp add: byteOffset_def unat_size_mul)
  show r: "bytesToRead idx = min ((unat (bitsPerBand idx) + 7) div 8) 8"
    by (rule bytesToRead_eq [OF inv w64])
  have "unat b < unat (numBands idx)" using b by (simp add: word_less_nat_alt)
  then have "(unat b * unat (bitsPerBand idx)) div 8 + (unat (bitsPerBand idx) + 7) div 8
      \<le> (unat (numBands idx) * unat (bitsPerBand idx) + 7) div 8"
    by (rule window_arith)
  then show "byteOffset idx b + bytesToRead idx \<le> requiredBytes idx"
    by (simp add: o r requiredBytes_eq)
qed

lemma extractBandHash_bound:
  assumes "bitsPerBand idx \<le> 64" "extractBandHash idx s b = Some h"
  shows "unat h < 2 ^ unat (bitsPerBand idx)"
proof (cases "bitsPerBand idx < 64")
  case True
  then have "unat (bitsPerBand idx) < 64" by (simp add: word_less_nat_alt)
  then show ?thesis
    using assms(2) True by (auto simp: extractBandHash_def mask_bound split: option.splits)
next
  case False
  with assms(1) have "bitsPerBand idx = 64" by simp
  then show ?thesis using unsigned_less [of h, where 'a = nat] by simp
qed

text \<open>
  Claim C9. For a band \<open>b < B\<close> and \<open>1 \<le> W \<le> 64\<close>, \<open>extractBandHash\<close> reads
  \<open>min(\<lceil>W/8\<rceil>, 8)\<close> bytes starting at offset \<open>\<lfloor>b\<cdot>W/8\<rfloor>\<close>, all of them below
  \<open>requiredBytes = \<lceil>B\<cdot>W/8\<rceil>\<close>. So on a signature of at least \<open>requiredBytes\<close>
  bytes it returns a hash, without reading outside the buffer, and the hash is
  below \<open>2^W\<close>; it reads nothing else, since any buffer that covers the window and
  agrees on it gives the same result.
\<close>

theorem extractBandHash_total:
  assumes inv: "bytesPerBand idx = (bitsPerBand idx + 7) div 8"
    and w1: "1 \<le> bitsPerBand idx" and w64: "bitsPerBand idx \<le> 64"
    and b: "b < numBands idx"
    and len: "requiredBytes idx \<le> length signature"
  shows "byteOffset idx b = (unat b * unat (bitsPerBand idx)) div 8
       \<and> bytesToRead idx = min ((unat (bitsPerBand idx) + 7) div 8) 8
       \<and> byteOffset idx b + bytesToRead idx \<le> (unat (numBands idx) * unat (bitsPerBand idx) + 7) div 8
       \<and> (\<exists>h. extractBandHash idx signature b = Some h \<and> unat h < 2 ^ unat (bitsPerBand idx))
       \<and> (\<forall>s'. byteOffset idx b + bytesToRead idx \<le> length s'
               \<and> (\<forall>k. byteOffset idx b \<le> k \<and> k < byteOffset idx b + bytesToRead idx
                        \<longrightarrow> s' ! k = signature ! k)
             \<longrightarrow> extractBandHash idx s' b = extractBandHash idx signature b)"
proof -
  note win = extractBandHash_window [OF inv w1 w64 b]
  have in_range: "\<forall>i \<in> set [0..<bytesToRead idx]. byteOffset idx b + i < length signature"
    using win(3) len by auto
  obtain h0 where "extract_loop signature (byteOffset idx b) [0..<bytesToRead idx] 0 = Some h0"
    using extract_loop_Some [OF in_range] by blast
  then obtain h where h: "extractBandHash idx signature b = Some h"
    by (simp add: extractBandHash_def)
  have frame: "extractBandHash idx s' b = extractBandHash idx signature b"
    if "byteOffset idx b + bytesToRead idx \<le> length s'"
      and "\<forall>k. byteOffset idx b \<le> k \<and> k < byteOffset idx b + bytesToRead idx \<longrightarrow> s' ! k = signature ! k"
    for s'
  proof -
    have "\<forall>i \<in> set [0..<bytesToRead idx]. byteOffset idx b + i < length signature
        \<and> byteOffset idx b + i < length s'
        \<and> s' ! (byteOffset idx b + i) = signature ! (byteOffset idx b + i)"
      using that in_range by auto
    then show ?thesis
      by (simp only: extractBandHash_def extract_loop_cong)
  qed
  show ?thesis
    using win h extractBandHash_bound [OF w64 h] frame
    by (simp add: requiredBytes_eq)
qed

theorem extractBandHash_total_witness:
  "bytesPerBand (new_LSHIndex 32 16) = (bitsPerBand (new_LSHIndex 32 16) + 7) div 8
   \<and> (1 :: u32) \<le> bitsPerBand (new_LSHIndex 32 16) \<and> bitsPerBand (new_LSHIndex 32 16) \<le> 64
   \<and> (31 :: u32) < numBands (new_LSHIndex 32 16)
   \<and> requiredBytes (new_LSHIndex 32 16) \<le> length (replicate 64 (171 :: u8))
   \<and> byteOffset (new_LSHIndex 32 16) 31 = 62 \<and> bytesToRead (new_LSHIndex 32 16) = 2
   \<and> (\<exists>h. extractBandHash (new_LSHIndex 32 16) (replicate 64 171) 31 = Some h \<and> unat h < 2 ^ 16)"
proof -
  have h1: "bytesPerBand (new_LSHIndex 32 16) = (bitsPerBand (new_LSHIndex 32 16) + 7) div 8"
    and h2: "(1 :: u32) \<le> bitsPerBand (new_LSHIndex 32 16)"
    and h3: "bitsPerBand (new_LSHIndex 32 16) \<le> 64"
    and h4: "(31 :: u32) < numBands (new_LSHIndex 32 16)"
    and h5: "requiredBytes (new_LSHIndex 32 16) \<le> length (replicate 64 (171 :: u8))"
    by (simp_all add: new_LSHIndex_def requiredBytes_eq)
  have w: "bitsPerBand (new_LSHIndex 32 16) = 16"
    by (simp add: new_LSHIndex_def)
  from extractBandHash_total [OF h1 h2 h3 h4 h5]
  have "byteOffset (new_LSHIndex 32 16) 31 = unat (31 :: u32) * unat (bitsPerBand (new_LSHIndex 32 16)) div 8"
    and "bytesToRead (new_LSHIndex 32 16) = min ((unat (bitsPerBand (new_LSHIndex 32 16)) + 7) div 8) 8"
    and "\<exists>h. extractBandHash (new_LSHIndex 32 16) (replicate 64 171) 31 = Some h
           \<and> unat h < 2 ^ unat (bitsPerBand (new_LSHIndex 32 16))"
    by blast+
  then have "byteOffset (new_LSHIndex 32 16) 31 = 62" and "bytesToRead (new_LSHIndex 32 16) = 2"
    and "\<exists>h. extractBandHash (new_LSHIndex 32 16) (replicate 64 171) 31 = Some h \<and> unat h < 2 ^ 16"
    by (simp_all add: w)
  with h1 h2 h3 h4 h5 show ?thesis by blast
qed

section \<open>An add never reads outside the buffer\<close>

lemma extractBandHash_buckets [simp]:
  "extractBandHash (idx\<lparr>buckets := bk\<rparr>) s b = extractBandHash idx s b"
  by (simp add: extractBandHash_def byteOffset_def bytesToRead_def split: option.splits)

lemma requiredBytes_buckets [simp]: "requiredBytes (idx\<lparr>buckets := bk\<rparr>) = requiredBytes idx"
  by (simp add: requiredBytes_def)

lemma bytesToRead_le:
  assumes "bytesPerBand idx = (bitsPerBand idx + 7) div 8"
  shows "bytesToRead idx \<le> (unat (bitsPerBand idx) + 7) div 8"
proof (cases "unat (bitsPerBand idx) + 7 < 2 ^ 32")
  case True
  then have "unat (bitsPerBand idx + 7) = unat (bitsPerBand idx) + unat (7 :: u32)"
    using unat_add_lem [of "bitsPerBand idx" 7] by simp
  then have "unat (bytesPerBand idx) = (unat (bitsPerBand idx) + 7) div 8"
    by (simp add: assms unat_div)
  moreover have "unat (min (bytesPerBand idx) 8) \<le> unat (bytesPerBand idx)"
    unfolding word_le_nat_alt [symmetric] by simp
  ultimately show ?thesis by (simp add: bytesToRead_def)
next
  case False
  have "unat (min (bytesPerBand idx) 8) \<le> unat (8 :: u32)"
    unfolding word_le_nat_alt [symmetric] by simp
  then have "bytesToRead idx \<le> 8" by (simp add: bytesToRead_def)
  moreover from False have "8 \<le> (unat (bitsPerBand idx) + 7) div 8" by simp
  ultimately show ?thesis by simp
qed

lemma unat_of_nat_band: "b < unat (n :: u32) \<Longrightarrow> unat (of_nat b :: u32) = b"
  using unat_u32_less [of n] by (simp add: unat_of_nat)

lemma band_window:
  assumes "bytesPerBand idx = (bitsPerBand idx + 7) div 8" "b < unat (numBands idx)"
  shows "byteOffset idx (of_nat b) + bytesToRead idx \<le> requiredBytes idx"
proof -
  have "byteOffset idx (of_nat b) = (b * unat (bitsPerBand idx)) div 8"
    by (simp add: byteOffset_def unat_size_mul unat_of_nat_band [OF assms(2)])
  moreover have "(b * unat (bitsPerBand idx)) div 8 + (unat (bitsPerBand idx) + 7) div 8
      \<le> (unat (numBands idx) * unat (bitsPerBand idx) + 7) div 8"
    using assms(2) by (rule window_arith)
  ultimately show ?thesis
    using bytesToRead_le [OF assms(1)] by (simp add: requiredBytes_eq)
qed

lemma extractBandHash_in_bounds:
  assumes "bytesPerBand idx = (bitsPerBand idx + 7) div 8" "b < unat (numBands idx)"
    and "requiredBytes idx \<le> length s"
  shows "\<exists>h. extractBandHash idx s (of_nat b) = Some h"
proof -
  have "\<forall>i \<in> set [0..<bytesToRead idx]. byteOffset idx (of_nat b) + i < length s"
    using band_window [OF assms(1,2)] assms(3) by auto
  from extract_loop_Some [OF this]
  obtain h0 where "extract_loop s (byteOffset idx (of_nat b)) [0..<bytesToRead idx] 0 = Some h0"
    by blast
  then show ?thesis by (simp add: extractBandHash_def)
qed

lemma add_loop_params:
  "add_loop idx ident s bs = Some idx' \<Longrightarrow>
     numBands idx' = numBands idx \<and> bitsPerBand idx' = bitsPerBand idx
     \<and> bytesPerBand idx' = bytesPerBand idx \<and> length (buckets idx') = length (buckets idx)"
  by (induction bs arbitrary: idx) (auto split: option.splits)

lemma add_loop_Some:
  assumes "bytesPerBand idx = (bitsPerBand idx + 7) div 8" "requiredBytes idx \<le> length s"
    and "\<forall>b \<in> set bs. b < unat (numBands idx)"
  shows "\<exists>idx'. add_loop idx ident s bs = Some idx'"
  using assms
proof (induction bs arbitrary: idx)
  case Nil
  then show ?case by simp
next
  case (Cons b bs)
  obtain h where h: "extractBandHash idx s (of_nat b) = Some h"
    using extractBandHash_in_bounds [of idx b s] Cons.prems by auto
  let ?idx = "idx\<lparr>buckets := (buckets idx)[b := bucket_push (buckets idx ! b) h ident]\<rparr>"
  have "\<exists>idx'. add_loop ?idx ident s bs = Some idx'"
    using Cons.prems by (intro Cons.IH) simp_all
  then show ?case by (simp add: h)
qed

lemma add_Some:
  assumes "index_inv idx"
  shows "\<exists>idx'. add idx ident s (length s) = Some idx' \<and> index_inv idx'"
proof (cases "length s < requiredBytes idx")
  case True
  then show ?thesis using assms by (simp add: add_def)
next
  case False
  then obtain idx' where i: "add_loop idx ident s [0..<unat (numBands idx)] = Some idx'"
    using add_loop_Some [of idx s "[0..<unat (numBands idx)]" ident] assms
    by (auto simp: index_inv_def)
  then show ?thesis
    using False assms add_loop_params [OF i] by (simp add: add_def index_inv_def)
qed

lemma index_inv_new: "index_inv (new_LSHIndex nb bpb)"
  by (simp add: index_inv_def new_LSHIndex_def)

lemma index_inv_clear: "index_inv idx \<Longrightarrow> index_inv (clear idx)"
  by (simp add: index_inv_def clear_def)

section \<open>The handle registry\<close>

lemma registry_inv_initial: "registry_inv initial_registry"
  by (simp add: registry_inv_def initial_registry_def)

lemma registry_inv_Create: "registry_inv reg \<Longrightarrow> registry_inv (snd (CreateLSHIndex info reg))"
  by (simp add: registry_inv_def CreateLSHIndex_def Let_def index_inv_new)

lemma registry_inv_Destroy: "registry_inv reg \<Longrightarrow> registry_inv (snd (LSHDestroy info reg))"
  by (auto simp: registry_inv_def LSHDestroy_def split: js_value.splits if_splits)

lemma LSHAdd_live:
  assumes inv: "registry_inv reg" and live: "g_lshIndexes reg handle = Some index"
  shows "\<exists>index'. add index (size32 (signatures_of reg handle)) sig (length sig) = Some index'
           \<and> index_inv index'
           \<and> LSHAdd [JNumber handle, JBuffer sig] reg =
               (Inr (size32 (signatures_of reg handle)),
                reg\<lparr>g_lshSignatures := (g_lshSignatures reg)(handle \<mapsto> signatures_of reg handle @ [sig]),
                    g_lshIndexes := (g_lshIndexes reg)(handle \<mapsto> index')\<rparr>)"
proof -
  have "index_inv index" using inv live by (auto simp: registry_inv_def)
  from add_Some [OF this, of "size32 (signatures_of reg handle)" sig]
  obtain index' where a: "add index (size32 (signatures_of reg handle)) sig (length sig) = Some index'"
    and i: "index_inv index'" by blast
  have "LSHAdd [JNumber handle, JBuffer sig] reg =
      (Inr (size32 (signatures_of reg handle)),
       reg\<lparr>g_lshSignatures := (g_lshSignatures reg)(handle \<mapsto> signatures_of reg handle @ [sig]),
           g_lshIndexes := (g_lshIndexes reg)(handle \<mapsto> index')\<rparr>)"
    by (simp add: LSHAdd_def arg_def live a Let_def)
  with a i show ?thesis by blast
qed

lemma lshAdd_seq_ids:
  assumes "registry_inv reg" "g_lshIndexes reg handle = Some index"
  shows "\<exists>reg' index'. lshAdd_seq handle sigs reg =
            (map (\<lambda>i. Inr (of_nat i))
                 [length (signatures_of reg handle)..<length (signatures_of reg handle) + length sigs], reg')
          \<and> signatures_of reg' handle = signatures_of reg handle @ sigs
          \<and> registry_inv reg' \<and> g_lshIndexes reg' handle = Some index'"
  using assms
proof (induction sigs arbitrary: reg index)
  case Nil
  then show ?case by simp
next
  case (Cons sig sigs)
  let ?n = "length (signatures_of reg handle)"
  from LSHAdd_live [OF Cons.prems, of sig]
  obtain index1 where i1: "index_inv index1"
    and r1: "LSHAdd [JNumber handle, JBuffer sig] reg =
               (Inr (size32 (signatures_of reg handle)),
                reg\<lparr>g_lshSignatures := (g_lshSignatures reg)(handle \<mapsto> signatures_of reg handle @ [sig]),
                    g_lshIndexes := (g_lshIndexes reg)(handle \<mapsto> index1)\<rparr>)"
    by blast
  let ?reg1 = "reg\<lparr>g_lshSignatures := (g_lshSignatures reg)(handle \<mapsto> signatures_of reg handle @ [sig]),
                    g_lshIndexes := (g_lshIndexes reg)(handle \<mapsto> index1)\<rparr>"
  have inv1: "registry_inv ?reg1"
    using Cons.prems(1) i1 by (simp add: registry_inv_def)
  have live1: "g_lshIndexes ?reg1 handle = Some index1" by simp
  have s1: "signatures_of ?reg1 handle = signatures_of reg handle @ [sig]"
    by (simp add: signatures_of_def)
  from Cons.IH [OF inv1 live1]
  obtain reg' index' where
    seq: "lshAdd_seq handle sigs ?reg1 =
            (map (\<lambda>i. Inr (of_nat i))
                 [length (signatures_of ?reg1 handle)..<length (signatures_of ?reg1 handle) + length sigs], reg')"
    and st: "signatures_of reg' handle = signatures_of ?reg1 handle @ sigs"
    and inv': "registry_inv reg'" and live': "g_lshIndexes reg' handle = Some index'"
    by blast
  have "[?n..<?n + length (sig # sigs)] = ?n # [Suc ?n..<Suc ?n + length sigs]"
    by (simp add: upt_rec)
  then have "lshAdd_seq handle (sig # sigs) reg =
      (map (\<lambda>i. Inr (of_nat i)) [?n..<?n + length (sig # sigs)], reg')"
    using seq by (simp add: r1 s1 size32_def)
  then show ?case using st s1 inv' live' by auto
qed

lemma map_unat_of_nat_upt:
  "n + k \<le> 2 ^ 32 \<Longrightarrow> map unat (map of_nat [n..<n + k] :: u32 list) = [n..<n + k]"
  by (auto simp: unat_of_nat intro!: map_idI)

text \<open>
  Claim C6 (as amended). On a live handle, successive \<open>lshAdd\<close> calls return the
  store sizes \<open>n, n + 1, n + 2, \<dots>\<close> at each call and append the passed bytes to
  the store in call order, whatever the length of each signature, as long as the
  store stays within \<open>2^32\<close> entries: the ID is the store size cast to
  \<open>uint32_t\<close>. From a fresh handle the IDs are \<open>0, 1, 2, \<dots>\<close>.
\<close>

theorem lshAdd_mints_dense_ids:
  assumes "registry_inv reg" and "g_lshIndexes reg handle = Some index"
    and "length (signatures_of reg handle) + length sigs \<le> 2 ^ 32"
  shows "\<exists>ids reg'. lshAdd_seq handle sigs reg = (map Inr ids, reg')
           \<and> map unat ids = [length (signatures_of reg handle)..<
                              length (signatures_of reg handle) + length sigs]
           \<and> signatures_of reg' handle = signatures_of reg handle @ sigs"
proof -
  let ?n = "length (signatures_of reg handle)"
  from lshAdd_seq_ids [OF assms(1,2), of sigs]
  obtain reg' where seq: "lshAdd_seq handle sigs reg =
        (map (\<lambda>i. Inr (of_nat i)) [?n..<?n + length sigs], reg')"
    and st: "signatures_of reg' handle = signatures_of reg handle @ sigs"
    by blast
  let ?ids = "map of_nat [?n..<?n + length sigs] :: u32 list"
  have "lshAdd_seq handle sigs reg = (map Inr ?ids, reg')"
    by (simp add: seq comp_def)
  moreover have "map unat ?ids = [?n..<?n + length sigs]"
    by (rule map_unat_of_nat_upt [OF assms(3)])
  ultimately show ?thesis using st by blast
qed

lemma fresh_handle:
  "g_lshIndexes (snd (CreateLSHIndex [] initial_registry)) 1 = Some (new_LSHIndex 32 16)"
  "signatures_of (snd (CreateLSHIndex [] initial_registry)) 1 = []"
  by (simp_all add: CreateLSHIndex_def arg_def initial_registry_def signatures_of_def)

theorem lshAdd_mints_dense_ids_witness:
  "registry_inv (snd (CreateLSHIndex [] initial_registry))
   \<and> g_lshIndexes (snd (CreateLSHIndex [] initial_registry)) 1 = Some (new_LSHIndex 32 16)
   \<and> (\<exists>ids reg'. lshAdd_seq 1 [[1, 2, 3], replicate 64 7, []] (snd (CreateLSHIndex [] initial_registry))
                    = (map Inr ids, reg')
          \<and> map unat ids = [0..<3]
          \<and> signatures_of reg' 1 = [[1, 2, 3], replicate 64 7, []])"
proof -
  let ?reg = "snd (CreateLSHIndex [] initial_registry)"
  have h1: "registry_inv ?reg"
    by (rule registry_inv_Create [OF registry_inv_initial])
  have h2: "g_lshIndexes ?reg 1 = Some (new_LSHIndex 32 16)"
    by (rule fresh_handle)
  have h3: "length (signatures_of ?reg 1) + length [[1, 2, 3], replicate 64 7, [] :: u8 list] \<le> 2 ^ 32"
    by (simp add: fresh_handle)
  from lshAdd_mints_dense_ids [OF h1 h2 h3]
  obtain ids reg' where a: "lshAdd_seq 1 [[1, 2, 3], replicate 64 7, []] ?reg = (map Inr ids, reg')"
    and b: "map unat ids = [length (signatures_of ?reg 1)..<
              length (signatures_of ?reg 1) + length [[1, 2, 3], replicate 64 7, [] :: u8 list]]"
    and c: "signatures_of reg' 1 = signatures_of ?reg 1 @ [[1, 2, 3], replicate 64 7, []]"
    by blast
  have "map unat ids = [0..<3]" using b by (simp add: fresh_handle numeral_3_eq_3)
  moreover have "signatures_of reg' 1 = [[1, 2, 3], replicate 64 7, []]"
    using c by (simp only: fresh_handle append_Nil)
  ultimately show ?thesis using h1 h2 a by blast
qed

lemma of_nat_2_32: "(of_nat (2 ^ 32) :: u32) = 0"
  by (simp only: of_nat_power of_nat_numeral) simp

text \<open>
  Claim C6 as stated fails once the store holds \<open>2^32\<close> signatures: after
  \<open>2^32\<close> adds on the first handle the next \<open>lshAdd\<close> returns the ID 0 again.
\<close>

theorem lshAdd_id_wraps:
  "fst (LSHAdd [JNumber 1, JBuffer []]
          (snd (lshAdd_seq 1 (replicate (2 ^ 32) []) (snd (CreateLSHIndex [] initial_registry)))))
     = Inr 0
   \<and> length (signatures_of
        (snd (lshAdd_seq 1 (replicate (2 ^ 32) []) (snd (CreateLSHIndex [] initial_registry)))) 1)
     = 2 ^ 32"
proof -
  let ?reg = "snd (CreateLSHIndex [] initial_registry)"
  let ?reg' = "snd (lshAdd_seq 1 (replicate (2 ^ 32) []) ?reg)"
  have h1: "registry_inv ?reg"
    by (rule registry_inv_Create [OF registry_inv_initial])
  from lshAdd_seq_ids [OF h1 fresh_handle(1), of "replicate (2 ^ 32) []"]
  obtain index' where st: "signatures_of ?reg' 1 = replicate (2 ^ 32) []"
    and inv': "registry_inv ?reg'" and live': "g_lshIndexes ?reg' 1 = Some index'"
    by (auto simp: fresh_handle)
  have "size32 (signatures_of ?reg' 1) = 0"
    by (simp only: st size32_def length_replicate of_nat_2_32)
  with LSHAdd_live [OF inv' live', of "[]"] have "fst (LSHAdd [JNumber 1, JBuffer []] ?reg') = Inr 0"
    by auto
  then show ?thesis by (simp only: st length_replicate simp_thms)
qed

lemma unknown_handle_rejected:
  assumes "g_lshIndexes reg handle = None"
  shows "LSHAdd [JNumber handle, JBuffer sig] reg = (Inl (Error ''Invalid LSH index handle''), reg)"
    and "LSHAddBatch [JNumber handle, JArray sigArray] reg = (Inl (Error ''Invalid LSH index handle''), reg)"
    and "LSHQuery [JNumber handle, JBuffer sig, JNumber threshold] reg
           = (Inl (Error ''Invalid LSH index handle''), reg)"
    and "LSHGetCandidates [JNumber handle, JBuffer sig] reg = (Inl (Error ''Invalid LSH index handle''), reg)"
    and "LSHGetStats [JNumber handle] reg = (Inl (Error ''Invalid LSH index handle''), reg)"
  using assms
  by (simp_all add: LSHAdd_def LSHAddBatch_def LSHQuery_def LSHGetCandidates_def LSHGetStats_def arg_def)

text \<open>
  Claim C8. The five operations above reject a handle that names no live index with
  the error \<open>Invalid LSH index handle\<close> and leave the registry as it was.
  \<open>lshDestroy\<close> does not: on the empty registry, where handle 7 names nothing, it
  returns \<open>undefined\<close> without an error (the registry is unchanged).
\<close>

theorem LSHDestroy_unknown_handle:
  "g_lshIndexes initial_registry 7 = None
   \<and> LSHDestroy [JNumber 7] initial_registry = (Inr (), initial_registry)"
  by (simp add: LSHDestroy_def arg_def initial_registry_def)

section \<open>Band totals and statistics\<close>

lemma band_total_push: "band_total (bucket_push m h i) = band_total m + 1"
  by (induction m h i rule: bucket_push.induct) (simp_all add: band_total_def)

lemma add_loop_totals:
  assumes "add_loop idx ident s bs = Some idx'" "distinct bs"
    and "\<forall>b \<in> set bs. b < length (buckets idx)" "c < length (buckets idx)"
  shows "band_total (buckets idx' ! c) = band_total (buckets idx ! c) + (if c \<in> set bs then 1 else 0)"
  using assms
proof (induction bs arbitrary: idx)
  case Nil
  then show ?case by simp
next
  case (Cons b bs)
  from Cons.prems(1) obtain h where h: "extractBandHash idx s (of_nat b) = Some h"
    by (auto split: option.splits)
  let ?idx = "idx\<lparr>buckets := (buckets idx)[b := bucket_push (buckets idx ! b) h ident]\<rparr>"
  have step: "add_loop ?idx ident s bs = Some idx'"
    using Cons.prems(1) by (simp add: h)
  have "band_total (buckets idx' ! c) = band_total (buckets ?idx ! c) + (if c \<in> set bs then 1 else 0)"
    using Cons.prems by (intro Cons.IH [OF step]) simp_all
  moreover have "band_total (buckets ?idx ! c) = band_total (buckets idx ! c) + (if c = b then 1 else 0)"
    using Cons.prems(4) by (simp add: nth_list_update band_total_push)
  ultimately show ?case using Cons.prems(2) by auto
qed

lemma add_totals:
  assumes "index_inv idx" "add idx ident s (length s) = Some idx'" "c < unat (numBands idx)"
  shows "band_total (buckets idx' ! c) =
           band_total (buckets idx ! c) + (if length s < requiredBytes idx then 0 else 1)"
proof (cases "length s < requiredBytes idx")
  case True
  then show ?thesis using assms(2) by (simp add: add_def)
next
  case False
  then have "add_loop idx ident s [0..<unat (numBands idx)] = Some idx'"
    using assms(2) by (simp add: add_def)
  from add_loop_totals [OF this, of c] show ?thesis
    using assms(1,3) False by (simp add: index_inv_def)
qed

lemma add_params:
  assumes "add idx ident s n = Some idx'"
  shows "numBands idx' = numBands idx \<and> bitsPerBand idx' = bitsPerBand idx"
  using assms add_loop_params [of idx ident s "[0..<unat (numBands idx)]" idx']
  by (auto simp: add_def split: if_splits)

lemma requiredBytes_cong:
  "numBands idx' = numBands idx \<Longrightarrow> bitsPerBand idx' = bitsPerBand idx
     \<Longrightarrow> requiredBytes idx' = requiredBytes idx"
  by (simp add: requiredBytes_def)

lemma clear_totals: "c < length (buckets idx) \<Longrightarrow> band_total (buckets (clear idx) ! c) = 0"
  by (simp add: clear_def band_total_def)

lemma run_ops_totals:
  assumes "index_inv idx" "\<forall>c < unat (numBands idx). band_total (buckets idx ! c) = n"
  shows "\<exists>idx'. run_ops idx ops = Some idx' \<and> index_inv idx'
           \<and> numBands idx' = numBands idx \<and> bitsPerBand idx' = bitsPerBand idx
           \<and> (\<forall>c < unat (numBands idx).
                 band_total (buckets idx' ! c) = accepted_adds (requiredBytes idx) ops n)"
  using assms
proof (induction ops arbitrary: idx n)
  case Nil
  then show ?case by simp
next
  case (Cons op ops)
  show ?case
  proof (cases op)
    case (Add ident s)
    from add_Some [OF Cons.prems(1), of ident s]
    obtain idx1 where a: "add idx ident s (length s) = Some idx1" and i1: "index_inv idx1"
      by blast
    note p = add_params [OF a]
    let ?n = "if length s < requiredBytes idx then n else n + 1"
    have t: "\<forall>c < unat (numBands idx1). band_total (buckets idx1 ! c) = ?n"
      using add_totals [OF Cons.prems(1) a] Cons.prems(2) p by auto
    from Cons.IH [OF i1 t]
    obtain idx' where "run_ops idx1 ops = Some idx'" "index_inv idx'"
      "numBands idx' = numBands idx1" "bitsPerBand idx' = bitsPerBand idx1"
      "\<forall>c < unat (numBands idx1). band_total (buckets idx' ! c) = accepted_adds (requiredBytes idx1) ops ?n"
      by blast
    then show ?thesis
      using Add a p requiredBytes_cong [of idx1 idx] by simp
  next
    case Clear
    have i1: "index_inv (clear idx)" by (rule index_inv_clear [OF Cons.prems(1)])
    have p: "numBands (clear idx) = numBands idx" "bitsPerBand (clear idx) = bitsPerBand idx"
      by (simp_all add: clear_def)
    have t: "\<forall>c < unat (numBands (clear idx)). band_total (buckets (clear idx) ! c) = 0"
      using Cons.prems(1) by (simp add: clear_totals index_inv_def p)
    from Cons.IH [OF i1 t]
    obtain idx' where "run_ops (clear idx) ops = Some idx'" "index_inv idx'"
      "numBands idx' = numBands (clear idx)" "bitsPerBand idx' = bitsPerBand (clear idx)"
      "\<forall>c < unat (numBands (clear idx)).
          band_total (buckets idx' ! c) = accepted_adds (requiredBytes (clear idx)) ops 0"
      by blast
    then show ?thesis
      using Clear p requiredBytes_cong [of "clear idx" idx] by simp
  qed
qed

lemma new_index_totals:
  "\<forall>c < unat (numBands (new_LSHIndex nb bpb)). band_total (buckets (new_LSHIndex nb bpb) ! c) = 0"
  by (simp add: new_LSHIndex_def band_total_def)

text \<open>
  Claim C10. In every state that an index reaches from its constructor through
  \<open>add\<close> and \<open>clear\<close> calls, which all return normally, every band \<open>c < B\<close> holds
  the same total number of posting-list entries: the number of adds that were not
  skipped since the construction or the last \<open>clear\<close>. An accepted add puts one more
  entry into one posting list of every band (\<open>add_totals\<close>, \<open>band_total_push\<close>) and
  \<open>clear\<close> empties every band (\<open>clear_totals\<close>).
\<close>

theorem bands_hold_equal_totals:
  "\<exists>idx. run_ops (new_LSHIndex nb bpb) ops = Some idx
         \<and> (\<forall>c < unat nb. band_total (buckets idx ! c)
                = accepted_adds ((unat nb * unat bpb + 7) div 8) ops 0)"
proof -
  from run_ops_totals [OF index_inv_new new_index_totals, of nb bpb ops]
  obtain idx where "run_ops (new_LSHIndex nb bpb) ops = Some idx"
    and "\<forall>c < unat (numBands (new_LSHIndex nb bpb)). band_total (buckets idx ! c)
            = accepted_adds (requiredBytes (new_LSHIndex nb bpb)) ops 0"
    by blast
  then show ?thesis
    by (auto simp: requiredBytes_eq new_LSHIndex_def)
qed

theorem bands_hold_equal_totals_witness:
  "\<exists>idx. run_ops (new_LSHIndex 2 8) [Add 0 [1, 2], Add 1 [3], Clear, Add 2 [5, 6], Add 3 [7, 8, 9]] = Some idx
         \<and> band_total (buckets idx ! 0) = 2 \<and> band_total (buckets idx ! 1) = 2"
proof -
  let ?ops = "[Add 0 [1, 2], Add 1 [3], Clear, Add 2 [5, 6], Add 3 [7, 8, 9]]"
  from bands_hold_equal_totals [of 2 8 ?ops]
  obtain idx where r: "run_ops (new_LSHIndex 2 8) ?ops = Some idx"
    and t: "\<forall>c < unat (2 :: u32). band_total (buckets idx ! c)
              = accepted_adds ((unat (2 :: u32) * unat (8 :: u32) + 7) div 8) ?ops 0"
    by blast
  have "accepted_adds ((unat (2 :: u32) * unat (8 :: u32) + 7) div 8) ?ops 0 = 2"
    by simp
  with t have "band_total (buckets idx ! 0) = 2" "band_total (buckets idx ! 1) = 2"
    by simp_all
  with r show ?thesis by blast
qed

lemma fold_size32:
  "fold (\<lambda>(hash, ids) acc. acc + size32 ids) m a = a + of_nat (band_total m)"
  by (induction m arbitrary: a) (auto simp: band_total_def size32_def)

lemma numSignatures_band0:
  "buckets idx \<noteq> [] \<Longrightarrow> numSignatures (getStats idx) = of_nat (band_total (buckets idx ! 0))"
  by (cases "buckets idx") (simp_all add: getStats_def Let_def fold_size32)

lemma accepted_adds_all:
  "\<forall>(i, s) \<in> set adds. required \<le> length s
     \<Longrightarrow> accepted_adds required (map (\<lambda>(i, s). Add i s) adds) n = n + length adds"
  by (induction adds arbitrary: n) auto

lemma numSignatures_run_ops:
  assumes "1 \<le> nb"
  shows "\<exists>idx. run_ops (new_LSHIndex nb bpb) ops = Some idx
           \<and> numSignatures (getStats idx)
               = of_nat (accepted_adds ((unat nb * unat bpb + 7) div 8) ops 0)"
proof -
  have pos: "0 < unat nb" using assms by (simp add: word_le_nat_alt)
  from run_ops_totals [OF index_inv_new new_index_totals, of nb bpb ops]
  obtain idx where r: "run_ops (new_LSHIndex nb bpb) ops = Some idx" and i: "index_inv idx"
    and n: "numBands idx = numBands (new_LSHIndex nb bpb)"
    and t: "\<forall>c < unat (numBands (new_LSHIndex nb bpb)). band_total (buckets idx ! c)
            = accepted_adds (requiredBytes (new_LSHIndex nb bpb)) ops 0"
    by blast
  have nb: "numBands idx = nb" using n by (simp add: new_LSHIndex_def)
  have "length (buckets idx) = unat nb" using i nb by (simp add: index_inv_def)
  then have ne: "buckets idx \<noteq> []" using pos by auto
  have "band_total (buckets idx ! 0) = accepted_adds ((unat nb * unat bpb + 7) div 8) ops 0"
    using t pos by (auto simp: requiredBytes_eq new_LSHIndex_def)
  then show ?thesis using r numSignatures_band0 [OF ne] by simp
qed

text \<open>
  Without any band, \<open>B = 0\<close>, which the constructor accepts but the data model
  excludes, there is no band 0 to count and \<open>numSignatures\<close> stays 0.
\<close>

lemma numSignatures_no_bands:
  "map_option (\<lambda>idx. numSignatures (getStats idx)) (run_ops (new_LSHIndex 0 16) [Add 0 []]) = Some 0"
  by (simp add: add_def requiredBytes_eq new_LSHIndex_def getStats_def)

text \<open>
  Claim C7 (as amended). On a fresh index with at least one band, after \<open>k < 2^32\<close>
  add calls whose signatures all have at least \<open>requiredBytes\<close> bytes, \<open>getStats\<close>
  reports \<open>numSignatures = k\<close>: it is the sum of the posting-list lengths of band 0
  (\<open>numSignatures_band0\<close>), to which every accepted add contributes one entry,
  accumulated in a \<open>uint32_t\<close>.
\<close>

theorem stats_count_accepted_adds:
  assumes "1 \<le> nb" and "\<forall>(i, s) \<in> set adds. (unat nb * unat bpb + 7) div 8 \<le> length s"
    and "length adds < 2 ^ 32"
  shows "\<exists>idx. run_ops (new_LSHIndex nb bpb) (map (\<lambda>(i, s). Add i s) adds) = Some idx
           \<and> unat (numSignatures (getStats idx)) = length adds"
proof -
  from numSignatures_run_ops [OF assms(1), of bpb "map (\<lambda>(i, s). Add i s) adds"]
  obtain idx where r: "run_ops (new_LSHIndex nb bpb) (map (\<lambda>(i, s). Add i s) adds) = Some idx"
    and n: "numSignatures (getStats idx) = of_nat (accepted_adds ((unat nb * unat bpb + 7) div 8)
              (map (\<lambda>(i, s). Add i s) adds) 0)"
    by blast
  have "numSignatures (getStats idx) = of_nat (length adds)"
    using n accepted_adds_all [OF assms(2), of 0] by simp
  then have "unat (numSignatures (getStats idx)) = length adds"
    using assms(3) by (simp add: unat_of_nat)
  with r show ?thesis by blast
qed

theorem stats_count_accepted_adds_witness:
  "(1 :: u32) \<le> 2
   \<and> (unat (2 :: u32) * unat (8 :: u32) + 7) div 8 = 2
   \<and> (\<exists>idx. run_ops (new_LSHIndex 2 8) [Add 0 [1, 2], Add 1 [3, 4], Add 2 [5, 6, 7]] = Some idx
          \<and> unat (numSignatures (getStats idx)) = 3)"
proof -
  let ?adds = "[(0, [1, 2]), (1, [3, 4]), (2, [5, 6, 7 :: u8])] :: (u32 \<times> u8 list) list"
  have h1: "(1 :: u32) \<le> 2" by simp
  have h2: "\<forall>(i, s) \<in> set ?adds. (unat (2 :: u32) * unat (8 :: u32) + 7) div 8 \<le> length s"
    by simp
  have h3: "length ?adds < 2 ^ 32" by simp
  have m: "map (\<lambda>(i, s). Add i s) ?adds = [Add 0 [1, 2], Add 1 [3, 4], Add 2 [5, 6, 7]]"
    and l: "length ?adds = 3"
    by simp_all
  from stats_count_accepted_adds [OF h1 h2 h3]
  obtain idx where "run_ops (new_LSHIndex 2 8) (map (\<lambda>(i, s). Add i s) ?adds) = Some idx"
    and "unat (numSignatures (getStats idx)) = length ?adds"
    by blast
  then have r3: "run_ops (new_LSHIndex 2 8) [Add 0 [1, 2], Add 1 [3, 4], Add 2 [5, 6, 7]] = Some idx"
    and n3: "unat (numSignatures (getStats idx)) = 3"
    by (simp_all only: m l)
  have h4: "(unat (2 :: u32) * unat (8 :: u32) + 7) div 8 = 2" by simp
  show ?thesis
    by (intro conjI exI [of _ idx] h1 h4 r3 n3)
qed

lemma accepted_adds_replicate:
  "required \<le> length s \<Longrightarrow> accepted_adds required (replicate k (Add i s)) n = n + k"
  by (induction k arbitrary: n) auto

text \<open>
  Claim C7 as stated fails at \<open>k = 2^32\<close>: the 32-bit sum has wrapped to 0.
\<close>

theorem numSignatures_wraps:
  "map_option (\<lambda>idx. numSignatures (getStats idx))
     (run_ops (new_LSHIndex 1 8) (replicate (2 ^ 32) (Add 0 [0]))) = Some 0
   \<and> accepted_adds ((unat (1 :: u32) * unat (8 :: u32) + 7) div 8) (replicate (2 ^ 32) (Add 0 [0])) 0
       = 2 ^ 32"
proof -
  have a: "accepted_adds ((unat (1 :: u32) * unat (8 :: u32) + 7) div 8)
             (replicate (2 ^ 32) (Add 0 [0])) 0 = 2 ^ 32"
    using accepted_adds_replicate [of "(unat (1 :: u32) * unat (8 :: u32) + 7) div 8" "[0]" "2 ^ 32" 0 0]
    by simp
  from numSignatures_run_ops [of 1 8 "replicate (2 ^ 32) (Add 0 [0])"]
  obtain idx where r: "run_ops (new_LSHIndex 1 8) (replicate (2 ^ 32) (Add 0 [0])) = Some idx"
    and n: "numSignatures (getStats idx) = of_nat (accepted_adds ((unat (1 :: u32) * unat (8 :: u32) + 7) div 8)
              (replicate (2 ^ 32) (Add 0 [0])) 0)"
    by auto
  have "numSignatures (getStats idx) = 0"
    by (simp only: n a of_nat_2_32)
  then show ?thesis using a by (simp only: r option.map simp_thms)
qed

section \<open>The population count\<close>

lemma split_byte: "(z :: nat) = take_bit 8 z + 256 * drop_bit 8 z"
  by (simp add: take_bit_eq_mod drop_bit_eq_div)

lemma take8_sum: "a < 256 \<Longrightarrow> take_bit 8 (a + 256 * y) = (a :: nat)"
  by (simp add: take_bit_eq_mod)

lemma drop8_sum: "a < 256 \<Longrightarrow> drop_bit 8 (a + 256 * y) = (y :: nat)"
  by (simp add: drop_bit_eq_div)

lemma and_bytes:
  fixes a m y n :: nat
  assumes "a < 256" "m < 256"
  shows "(a + 256 * y) AND (m + 256 * n) = (a AND m) + 256 * (y AND n)"
proof -
  let ?z = "(a + 256 * y) AND (m + 256 * n)"
  have "take_bit 8 ?z = a AND m"
    by (simp only: take_bit_and take8_sum [OF assms(1)] take8_sum [OF assms(2)])
  moreover have "drop_bit 8 ?z = y AND n"
    by (simp only: drop_bit_and drop8_sum [OF assms(1)] drop8_sum [OF assms(2)])
  ultimately show ?thesis using split_byte [of ?z] by simp
qed

lemma and_small_mask:
  fixes q m :: nat
  assumes "m < 2 ^ k"
  shows "q AND m = take_bit k q AND m"
proof -
  have "take_bit k m = m" using assms by (simp add: take_bit_nat_eq_self)
  then have mk: "n < k" if "bit m n" for n
    using that by (metis bit_take_bit_iff)
  show ?thesis
    by (rule bit_eqI) (auto simp: bit_and_iff bit_take_bit_iff dest: mk)
qed

lemma shift_and_bytes:
  fixes a m y n :: nat
  assumes "a < 256" "m < 2 ^ (8 - j)" "j \<le> 8"
  shows "drop_bit j (a + 256 * y) AND (m + 256 * n) = (drop_bit j a AND m) + 256 * (drop_bit j y AND n)"
proof -
  let ?X = "a + 256 * y"
  let ?z = "drop_bit j ?X AND (m + 256 * n)"
  have m256: "m < 256"
  proof -
    have "(2 :: nat) ^ (8 - j) \<le> 2 ^ 8" by (rule power_increasing) simp_all
    with assms(2) show ?thesis by simp
  qed
  have "take_bit (8 - j) (take_bit 8 (drop_bit j ?X)) = drop_bit j (take_bit 8 ?X)"
    using assms(3) by (simp add: take_bit_drop_bit min_def)
  then have t: "take_bit (8 - j) (take_bit 8 (drop_bit j ?X)) = drop_bit j a"
    by (simp only: take8_sum [OF assms(1)])
  have "take_bit 8 ?z = take_bit 8 (drop_bit j ?X) AND m"
    by (simp only: take_bit_and take8_sum [OF m256])
  also have "\<dots> = take_bit (8 - j) (take_bit 8 (drop_bit j ?X)) AND m"
    by (rule and_small_mask [OF assms(2)])
  finally have lo: "take_bit 8 ?z = drop_bit j a AND m" by (simp only: t)
  have "drop_bit 8 (drop_bit j ?X) = drop_bit j (drop_bit 8 ?X)"
    by (simp add: add.commute)
  then have "drop_bit 8 ?z = drop_bit j y AND n"
    by (simp only: drop_bit_and drop8_sum [OF assms(1)] drop8_sum [OF m256])
  with lo show ?thesis using split_byte [of ?z] by simp
qed

lemma bit_count_numerals:
  "bit_count 0 = 0" "bit_count 1 = 1" "bit_count (Suc 0) = 1"
  "bit_count (numeral (Num.Bit0 k)) = bit_count (numeral k)"
  "bit_count (numeral (Num.Bit1 k)) = 1 + bit_count (numeral k)"
  by (simp_all add: bit_count.simps [of 0] bit_count.simps [of 1] bit_count.simps [of "Suc 0"]
        bit_count.simps [of "numeral (Num.Bit0 k)"] bit_count.simps [of "numeral (Num.Bit1 k)"]
        numeral_Bit0_div_2 numeral_Bit1_div_2)

lemma below_16: "(n :: nat) < 16 \<Longrightarrow>
  n = 0 \<or> n = 1 \<or> n = 2 \<or> n = 3 \<or> n = 4 \<or> n = 5 \<or> n = 6 \<or> n = 7 \<or>
  n = 8 \<or> n = 9 \<or> n = 10 \<or> n = 11 \<or> n = 12 \<or> n = 13 \<or> n = 14 \<or> n = 15"
  by arith

lemma byte_enum_aux:
  assumes "lo < 16" "hi < 16"
  shows "swar_nibbles (lo + 16 * hi) mod 16 \<le> 4 \<and> swar_nibbles (lo + 16 * hi) div 16 \<le> 4
       \<and> swar_bytes (lo + 16 * hi) = bit_count (lo + 16 * hi) \<and> swar_bytes (lo + 16 * hi) \<le> 8"
  using below_16 [OF assms(1)] below_16 [OF assms(2)]
  apply (elim disjE)
  apply (simp_all add: swar_pairs_def swar_nibbles_def swar_bytes_def bit_count_numerals drop_bit_eq_div numeral_2_eq_2 [symmetric] numeral_3_eq_3 [symmetric])
  done

lemma byte_enum:
  assumes "c < 256"
  shows "swar_nibbles c mod 16 \<le> 4 \<and> swar_nibbles c div 16 \<le> 4 \<and> swar_bytes c = bit_count c \<and> swar_bytes c \<le> 8"
proof -
  have "c mod 16 < 16" "c div 16 < 16" using assms by simp_all
  from byte_enum_aux [OF this] show ?thesis by simp
qed

lemma lanes_and:
  assumes "\<forall>c<256. f c < 256" "m < 256"
  shows "lanes n f x AND rep_byte n m = lanes n (\<lambda>c. f c AND m) x"
proof (induction n arbitrary: x)
  case 0
  show ?case by simp
next
  case (Suc n)
  have "f (x mod 256) < 256" using assms(1) by simp
  from and_bytes [OF this assms(2)] show ?case by (simp add: Suc.IH)
qed

lemma lanes_shift_and:
  assumes "\<forall>c<256. f c < 256" "m < 2 ^ (8 - j)" "j \<le> 8"
  shows "drop_bit j (lanes n f x) AND rep_byte n m = lanes n (\<lambda>c. drop_bit j (f c) AND m) x"
proof (induction n arbitrary: x)
  case 0
  show ?case by simp
next
  case (Suc n)
  have "f (x mod 256) < 256" using assms(1) by simp
  from shift_and_bytes [OF this assms(2,3)] show ?case by (simp add: Suc.IH)
qed

lemma lanes_add: "lanes n f x + lanes n g x = lanes n (\<lambda>c. f c + g c) x"
proof (induction n arbitrary: x)
  case 0
  show ?case by simp
next
  case (Suc n)
  show ?case by (simp add: Suc.IH [symmetric] algebra_simps)
qed

lemma lanes_mono: "\<forall>c<256. g c \<le> f c \<Longrightarrow> lanes n g x \<le> lanes n f x"
  by (induction n arbitrary: x) (simp_all add: add_mono)

lemma lanes_diff:
  assumes "\<forall>c<256. g c \<le> f c"
  shows "lanes n f x - lanes n g x = lanes n (\<lambda>c. f c - g c) x"
proof (induction n arbitrary: x)
  case 0
  show ?case by simp
next
  case (Suc n)
  have a: "g (x mod 256) \<le> f (x mod 256)" using assms by simp
  have b: "lanes n g (x div 256) \<le> lanes n f (x div 256)" by (rule lanes_mono [OF assms])
  have "lanes n f (x div 256) - lanes n g (x div 256) = lanes n (\<lambda>c. f c - g c) (x div 256)"
    by (rule Suc.IH)
  moreover have "(f (x mod 256) + 256 * lanes n f (x div 256))
        - (g (x mod 256) + 256 * lanes n g (x div 256))
      = (f (x mod 256) - g (x mod 256))
        + 256 * (lanes n f (x div 256) - lanes n g (x div 256))"
    using a b by linarith
  ultimately show ?case by simp
qed

lemma lanes_id: "x < 256 ^ n \<Longrightarrow> lanes n (\<lambda>c. c) x = x"
proof (induction n arbitrary: x)
  case 0
  then show ?case by simp
next
  case (Suc n)
  then have "x div 256 < 256 ^ n" by (simp add: less_mult_imp_div_less mult.commute)
  then show ?case by (simp add: Suc.IH)
qed

lemma lanes_cong: "\<forall>c<256. f c = g c \<Longrightarrow> lanes n f x = lanes n g x"
  by (induction n arbitrary: x) simp_all

lemma lane_sum_cong: "\<forall>c<256. f c = g c \<Longrightarrow> lane_sum n f x = lane_sum n g x"
  by (induction n arbitrary: x) simp_all

lemma and_15: "(x :: nat) AND 15 = x mod 16"
proof -
  have "x AND mask 4 = take_bit 4 x" by (simp add: take_bit_eq_mask)
  then show ?thesis by (simp add: mask_eq_exp_minus_1 take_bit_eq_mod)
qed

lemma lanes_low_nibble:
  assumes "\<forall>c<256. f c mod 16 \<le> 4"
  shows "lanes n f x mod 16 \<le> 4"
proof (cases n)
  case 0
  then show ?thesis by simp
next
  case (Suc k)
  have "(f (x mod 256) + 16 * (16 * lanes k f (x div 256))) mod 16 = f (x mod 256) mod 16"
    by (rule mod_mult_self2)
  then have "(f (x mod 256) + 256 * lanes k f (x div 256)) mod 16 = f (x mod 256) mod 16"
    by simp
  then show ?thesis using assms Suc by simp
qed

lemma lanes_fold_nibbles:
  assumes "\<forall>c<256. f c mod 16 \<le> 4 \<and> f c div 16 \<le> 4"
  shows "(lanes n f x + drop_bit 4 (lanes n f x)) AND rep_byte n 15
           = lanes n (\<lambda>c. (f c + drop_bit 4 (f c)) AND 15) x"
proof (induction n arbitrary: x)
  case 0
  show ?case by simp
next
  case (Suc n)
  define c where "c = f (x mod 256)"
  define Z where "Z = lanes n f (x div 256)"
  have c1: "c mod 16 \<le> 4" and c2: "c div 16 \<le> 4"
    using assms by (simp_all add: c_def)
  have Z1: "Z mod 16 \<le> 4"
    unfolding Z_def using assms by (intro lanes_low_nibble) simp
  define low where "low = c + c div 16 + 16 * (Z mod 16)"
  have cs: "c = c mod 16 + 16 * (c div 16)" and Zs: "Z = Z mod 16 + 16 * (Z div 16)"
    by simp_all
  have low: "low < 256" using c1 c2 Z1 cs unfolding low_def by linarith
  have "(c + 16 * (16 * Z)) div 16 = c div 16 + 16 * Z"
    by (simp only: div_mult_self2 [of 16 c "16 * Z"])
  then have d: "(c + 256 * Z) div 16 = c div 16 + 16 * Z" by simp
  have "16 * Z = 16 * (Z mod 16 + 16 * (Z div 16))" by simp
  then have "16 * Z = 16 * (Z mod 16) + 256 * (Z div 16)"
    by (simp only: distrib_left mult.assoc [symmetric])
  then have split: "(c + 256 * Z) + (c + 256 * Z) div 16 = low + 256 * (Z + Z div 16)"
    unfolding low_def d by (simp add: algebra_simps)
  have d4: "drop_bit 4 y = y div 16" for y :: nat
    by (simp add: drop_bit_eq_div)
  have e1: "lanes (Suc n) f x = c + 256 * Z" by (simp add: c_def Z_def)
  have la: "low AND 15 = (c + c div 16) AND 15"
    unfolding and_15 low_def by (rule mod_mult_self2)
  have ih: "(Z + Z div 16) AND rep_byte n 15 = lanes n (\<lambda>c. (f c + drop_bit 4 (f c)) AND 15) (x div 256)"
    using Suc.IH [of "x div 256"] by (simp only: Z_def d4)
  have "(lanes (Suc n) f x + drop_bit 4 (lanes (Suc n) f x)) AND rep_byte (Suc n) 15
      = ((c + 256 * Z) + (c + 256 * Z) div 16) AND (15 + 256 * rep_byte n 15)"
    by (simp only: e1 d4 rep_byte.simps)
  also have "\<dots> = (low + 256 * (Z + Z div 16)) AND (15 + 256 * rep_byte n 15)"
    by (simp only: split)
  also have "\<dots> = (low AND 15) + 256 * ((Z + Z div 16) AND rep_byte n 15)"
    by (rule and_bytes [OF low]) simp
  also have "\<dots> = ((c + c div 16) AND 15)
      + 256 * lanes n (\<lambda>c. (f c + drop_bit 4 (f c)) AND 15) (x div 256)"
    by (simp only: la ih)
  also have "\<dots> = lanes (Suc n) (\<lambda>c. (f c + drop_bit 4 (f c)) AND 15) x"
    by (simp add: c_def d4)
  finally show ?case .
qed

lemma horner_step: "(a :: nat) < 256 \<Longrightarrow> r < N \<Longrightarrow> a + 256 * r < 256 * N"
proof -
  assume a: "a < 256" and r: "r < N"
  from r have "Suc r \<le> N" by simp
  then have "256 * Suc r \<le> 256 * N" by (rule mult_le_mono2)
  with a show ?thesis by simp
qed

lemma mul_sum8:
  fixes c0 c1 c2 c3 c4 c5 c6 c7 :: nat
  assumes "c0 \<le> 8" "c1 \<le> 8" "c2 \<le> 8" "c3 \<le> 8" "c4 \<le> 8" "c5 \<le> 8" "c6 \<le> 8" "c7 \<le> 8"
  shows "((c0 + 256 * (c1 + 256 * (c2 + 256 * (c3 + 256 * (c4 + 256 * (c5 + 256 * (c6 + 256 * (c7)))))))) * 0x0101010101010101) mod 2 ^ 64 div 2 ^ 56
           = c0 + c1 + c2 + c3 + c4 + c5 + c6 + c7"
proof -
  define L where "L = (c0) + 256 * ((c0 + c1) + 256 * ((c0 + c1 + c2) + 256 * ((c0 + c1 + c2 + c3) + 256 * ((c0 + c1 + c2 + c3 + c4) + 256 * ((c0 + c1 + c2 + c3 + c4 + c5) + 256 * ((c0 + c1 + c2 + c3 + c4 + c5 + c6)))))))"
  define H where "H = 1 * (c1 + c2 + c3 + c4 + c5 + c6 + c7) + 256 * (c2 + c3 + c4 + c5 + c6 + c7) + 65536 * (c3 + c4 + c5 + c6 + c7) + 16777216 * (c4 + c5 + c6 + c7) + 4294967296 * (c5 + c6 + c7) + 1099511627776 * (c6 + c7) + 281474976710656 * (c7)"
  define S where "S = c0 + c1 + c2 + c3 + c4 + c5 + c6 + c7"
  have P: "(c0 + 256 * (c1 + 256 * (c2 + 256 * (c3 + 256 * (c4 + 256 * (c5 + 256 * (c6 + 256 * (c7)))))))) * 0x0101010101010101 = (L + 72057594037927936 * S) + 18446744073709551616 * H"
    unfolding L_def H_def S_def by (simp add: algebra_simps)
  have b: "c0 < 256" "c0 + c1 < 256" "c0 + c1 + c2 < 256" "c0 + c1 + c2 + c3 < 256"
    "c0 + c1 + c2 + c3 + c4 < 256" "c0 + c1 + c2 + c3 + c4 + c5 < 256"
    "c0 + c1 + c2 + c3 + c4 + c5 + c6 < 256"
    using assms by simp_all
  have "L < 256 * (256 * (256 * (256 * (256 * (256 * 256)))))"
    unfolding L_def by (intro horner_step b)
  then have L: "L < 72057594037927936" by simp
  have S: "S \<le> 64"
    unfolding S_def using assms by simp
  have "72057594037927936 * S \<le> 72057594037927936 * 64"
    using S by (rule mult_le_mono2)
  then have lt: "L + 72057594037927936 * S < 18446744073709551616"
    using L by simp
  have "((L + 72057594037927936 * S) + 18446744073709551616 * H) mod 18446744073709551616
      = (L + 72057594037927936 * S) mod 18446744073709551616"
    by (rule mod_mult_self2)
  also have "\<dots> = L + 72057594037927936 * S"
    using lt by (rule mod_less)
  finally have m: "((c0 + 256 * (c1 + 256 * (c2 + 256 * (c3 + 256 * (c4 + 256 * (c5 + 256 * (c6 + 256 * (c7)))))))) * 0x0101010101010101) mod 18446744073709551616
      = L + 72057594037927936 * S"
    by (simp only: P)
  have "(L + 72057594037927936 * S) div 72057594037927936 = S + L div 72057594037927936"
    by (rule div_mult_self2) simp
  also have "\<dots> = S" using L by simp
  finally have "((c0 + 256 * (c1 + 256 * (c2 + 256 * (c3 + 256 * (c4 + 256 * (c5 + 256 * (c6 + 256 * (c7)))))))) * 0x0101010101010101) mod 18446744073709551616 div 72057594037927936 = S"
    by (simp only: m)
  then show ?thesis by (simp add: S_def)
qed

lemma bit_count_rec: "bit_count n = n mod 2 + bit_count (n div 2)"
  by (cases "n = 0") (simp_all add: bit_count.simps [of n] bit_count.simps [of 0])

lemma bit_count_split: "a < 2 ^ k \<Longrightarrow> bit_count (a + 2 ^ k * y) = bit_count a + bit_count y"
proof (induction k arbitrary: a)
  case 0
  then show ?case by (simp add: bit_count.simps [of 0])
next
  case (Suc k)
  have h: "a div 2 < 2 ^ k" using Suc.prems by simp
  have "bit_count (a + 2 ^ Suc k * y) = (a + 2 ^ Suc k * y) mod 2 + bit_count ((a + 2 ^ Suc k * y) div 2)"
    by (rule bit_count_rec)
  also have "(a + 2 ^ Suc k * y) mod 2 = a mod 2"
    using mod_mult_self2 [of a 2 "2 ^ k * y"] by (simp add: mult.assoc)
  also have "(a + 2 ^ Suc k * y) div 2 = a div 2 + 2 ^ k * y"
    using div_mult_self2 [of 2 a "2 ^ k * y"] by (simp add: mult.assoc)
  also have "bit_count (a div 2 + 2 ^ k * y) = bit_count (a div 2) + bit_count y" by (rule Suc.IH [OF h])
  finally show ?case using bit_count_rec [of a] by simp
qed

lemma bit_count_byte: "a < 256 \<Longrightarrow> bit_count (a + 256 * y) = bit_count a + bit_count y"
  using bit_count_split [of a 8 y] by simp

lemma lane_sum_bit_count: "x < 256 ^ n \<Longrightarrow> lane_sum n bit_count x = bit_count x"
proof (induction n arbitrary: x)
  case 0
  then show ?case by (simp add: bit_count.simps [of 0])
next
  case (Suc n)
  then have "x div 256 < 256 ^ n" by (simp add: less_mult_imp_div_less mult.commute)
  then have "lane_sum n bit_count (x div 256) = bit_count (x div 256)" by (rule Suc.IH)
  moreover have "bit_count (x mod 256 + 256 * (x div 256)) = bit_count (x mod 256) + bit_count (x div 256)"
    by (rule bit_count_byte) simp
  ultimately show ?case by simp
qed

lemma and_le_nat: "(m :: nat) AND n \<le> m" "(m :: nat) AND n \<le> n"
proof -
  have "int (m AND n) \<le> int m" "int (m AND n) \<le> int n"
    by (simp_all add: of_nat_and_eq)
  then show "m AND n \<le> m" "m AND n \<le> n" by simp_all
qed

lemma finite_bits_nat: "finite {n. bit (x :: nat) n}"
proof (rule finite_subset)
  show "{n. bit x n} \<subseteq> {..<x}"
  proof
    fix n assume "n \<in> {n. bit x n}"
    then have "odd (x div 2 ^ n)" by (simp add: bit_iff_odd)
    then have "x div 2 ^ n \<noteq> 0" by (intro notI) simp
    then have "(2 :: nat) ^ n \<le> x" by (simp add: div_eq_0_iff not_less)
    moreover have "n < (2 :: nat) ^ n" by (rule less_exp)
    ultimately have "n < x" by (rule less_le_trans [rotated])
    then show "n \<in> {..<x}" by simp
  qed
qed simp

lemma card_bits_nat: "card {n. bit (x :: nat) n} = bit_count x"
proof (induction x rule: bit_count.induct)
  case (1 x)
  show ?case
  proof (cases "x = 0")
    case True
    then show ?thesis by (simp add: bit_count.simps [of 0])
  next
    case False
    have fin: "finite {n. bit (x div 2) n}" by (rule finite_bits_nat)
    have set: "{n. bit x n} = (if odd x then {0} else {}) \<union> Suc ` {n. bit (x div 2) n}"
    proof (rule set_eqI)
      fix n
      show "n \<in> {n. bit x n} \<longleftrightarrow> n \<in> (if odd x then {0} else {}) \<union> Suc ` {n. bit (x div 2) n}"
        by (cases n) (auto simp: bit_0 bit_Suc)
    qed
    have "card ((if odd x then {0} else {}) \<union> Suc ` {n. bit (x div 2) n})
        = card (if odd x then {0 :: nat} else {}) + card (Suc ` {n. bit (x div 2) n})"
      by (rule card_Un_disjoint) (use fin in auto)
    also have "card (Suc ` {n. bit (x div 2) n}) = card {n. bit (x div 2) n}"
      by (rule card_image) simp
    also have "card {n. bit (x div 2) n} = bit_count (x div 2)"
      using False by (rule "1.IH")
    also have "card (if odd x then {0 :: nat} else {}) = x mod 2"
      by (cases "odd x") (simp_all add: odd_iff_mod_2_eq_one)
    finally show ?thesis using bit_count_rec [of x] by (simp add: set)
  qed
qed

lemma eight: "(8 :: nat) = Suc (Suc (Suc (Suc (Suc (Suc (Suc (Suc 0)))))))"
  by simp

lemma rep_byte_8: "rep_byte 8 m = m + 256 * (m + 256 * (m + 256 * (m + 256 * (m + 256 * (m + 256 * (m + 256 * m))))))"
  by (simp only: eight rep_byte.simps) simp

lemma masks_rep_byte:
  "(0x5555555555555555 :: nat) = rep_byte 8 0x55"
  "(0x3333333333333333 :: nat) = rep_byte 8 0x33"
  "(0x0f0f0f0f0f0f0f0f :: nat) = rep_byte 8 0x0f"
  by (simp_all add: rep_byte_8)

lemma swar_pairs_le: "swar_pairs c \<le> c"
  by (simp add: swar_pairs_def)

lemma swar_nibbles_lt: "c < 256 \<Longrightarrow> swar_nibbles c < 256"
proof -
  assume "c < 256"
  from byte_enum [OF this] have "swar_nibbles c mod 16 \<le> 4" "swar_nibbles c div 16 \<le> 4" by simp_all
  moreover have "swar_nibbles c = swar_nibbles c mod 16 + 16 * (swar_nibbles c div 16)" by simp
  ultimately show ?thesis by linarith
qed

lemma swar_x1:
  assumes "x < 256 ^ 8"
  shows "x - (drop_bit 1 x AND 0x5555555555555555) = lanes 8 swar_pairs x"
proof -
  have id: "lanes 8 (\<lambda>c. c) x = x" by (rule lanes_id [OF assms])
  have "drop_bit 1 (lanes 8 (\<lambda>c. c) x) AND rep_byte 8 0x55 = lanes 8 (\<lambda>c. drop_bit 1 c AND 0x55) x"
    by (rule lanes_shift_and) simp_all
  then have "drop_bit 1 x AND 0x5555555555555555 = lanes 8 (\<lambda>c. drop_bit 1 c AND 0x55) x"
    by (simp only: id masks_rep_byte)
  moreover have "lanes 8 (\<lambda>c. c) x - lanes 8 (\<lambda>c. drop_bit 1 c AND 0x55) x
      = lanes 8 (\<lambda>c. c - (drop_bit 1 c AND 0x55)) x"
  proof (rule lanes_diff, intro allI impI)
    fix c :: nat
    have "drop_bit 1 c AND 0x55 \<le> drop_bit 1 c" by (rule and_le_nat)
    also have "\<dots> \<le> c" by (simp add: drop_bit_eq_div)
    finally show "drop_bit 1 c AND 0x55 \<le> c" .
  qed
  ultimately show ?thesis by (simp add: id swar_pairs_def [abs_def])
qed

lemma swar_pairs_lt: "\<forall>c<256. swar_pairs c < 256"
  using swar_pairs_le by (auto intro: le_less_trans)

lemma swar_x2: "(lanes 8 swar_pairs x AND 0x3333333333333333) + (drop_bit 2 (lanes 8 swar_pairs x) AND 0x3333333333333333)
    = lanes 8 swar_nibbles x"
proof -
  have "lanes 8 swar_pairs x AND rep_byte 8 0x33 = lanes 8 (\<lambda>c. swar_pairs c AND 0x33) x"
    by (rule lanes_and [OF swar_pairs_lt]) simp
  moreover have "drop_bit 2 (lanes 8 swar_pairs x) AND rep_byte 8 0x33 = lanes 8 (\<lambda>c. drop_bit 2 (swar_pairs c) AND 0x33) x"
    by (rule lanes_shift_and [OF swar_pairs_lt]) simp_all
  ultimately show ?thesis
    by (simp only: masks_rep_byte lanes_add swar_nibbles_def [abs_def])
qed

lemma swar_x3: "(lanes 8 swar_nibbles x + drop_bit 4 (lanes 8 swar_nibbles x)) AND 0x0f0f0f0f0f0f0f0f = lanes 8 swar_bytes x"
proof -
  have "\<forall>c<256. swar_nibbles c mod 16 \<le> 4 \<and> swar_nibbles c div 16 \<le> 4"
    using byte_enum by blast
  from lanes_fold_nibbles [OF this, of 8 x] show ?thesis
    by (simp only: masks_rep_byte swar_bytes_def [abs_def])
qed

lemma swar_bytes_le: "swar_bytes (x mod 256) \<le> 8"
  using byte_enum [of "x mod 256"] by simp

lemma swar_sum: "(lanes 8 swar_bytes x * 0x0101010101010101) mod 2 ^ 64 div 2 ^ 56 = lane_sum 8 swar_bytes x"
  by (simp only: eight lanes.simps lane_sum.simps mult_0_right add_0_right)
     (rule mul_sum8 [OF swar_bytes_le swar_bytes_le swar_bytes_le swar_bytes_le swar_bytes_le swar_bytes_le swar_bytes_le swar_bytes_le, simplified add.assoc])

lemma popcount64_nat_bit_count:
  assumes "x < 256 ^ 8"
  shows "popcount64_nat x = bit_count x"
proof -
  have "popcount64_nat x = lane_sum 8 swar_bytes x"
    by (simp only: popcount64_nat_def Let_def swar_x1 [OF assms] swar_x2 swar_x3 swar_sum)
  also have "\<dots> = lane_sum 8 bit_count x"
    by (rule lane_sum_cong) (use byte_enum in blast)
  also have "\<dots> = bit_count x"
    by (rule lane_sum_bit_count [OF assms])
  finally show ?thesis .
qed

lemma lanes_le_rep: "\<forall>c<256. f c \<le> m \<Longrightarrow> lanes n f x \<le> rep_byte n m"
  by (induction n arbitrary: x) (simp_all add: add_mono)

lemma swar_nibbles_le: "c < 256 \<Longrightarrow> swar_nibbles c \<le> 68"
proof -
  assume "c < 256"
  from byte_enum [OF this] have "swar_nibbles c mod 16 \<le> 4" "swar_nibbles c div 16 \<le> 4"
    by simp_all
  moreover have "swar_nibbles c = swar_nibbles c mod 16 + 16 * (swar_nibbles c div 16)" by simp
  ultimately show ?thesis by linarith
qed

lemma unat_u64_less: "unat (w :: u64) < 256 ^ 8"
  using unsigned_less [of w, where 'a = nat] by simp

lemma bit_count_le: "x < 2 ^ k \<Longrightarrow> bit_count x \<le> k"
proof (induction k arbitrary: x)
  case 0
  then show ?case by (simp add: bit_count.simps [of 0])
next
  case (Suc k)
  then have "x div 2 < 2 ^ k" by simp
  then have "bit_count (x div 2) \<le> k" by (rule Suc.IH)
  moreover have "x mod 2 \<le> 1" by simp
  ultimately show ?case using bit_count_rec [of x] by linarith
qed

lemma unat_popcount64: "unat (popcount64 w) = bit_count (unat w)"
proof -
  let ?x = "unat w"
  define y where "y = drop_bit 1 w AND 0x5555555555555555"
  define x1 where "x1 = w - y"
  define x2 where "x2 = (x1 AND 0x3333333333333333) + (drop_bit 2 x1 AND 0x3333333333333333)"
  define x3 where "x3 = (x2 + drop_bit 4 x2) AND 0x0f0f0f0f0f0f0f0f"
  have x: "?x < 256 ^ 8" by (rule unat_u64_less)
  have uy: "unat y = drop_bit 1 ?x AND 0x5555555555555555"
    by (simp add: y_def unsigned_and_eq unat_drop_bit_eq)
  have "unat y \<le> drop_bit 1 ?x" unfolding uy by (rule and_le_nat)
  also have "\<dots> \<le> ?x" by (simp add: drop_bit_eq_div)
  finally have yle: "unat y \<le> ?x" .
  then have "y \<le> w" by (simp add: word_le_nat_alt)
  then have "unat x1 = ?x - unat y" unfolding x1_def by (rule unat_sub)
  then have u1: "unat x1 = lanes 8 swar_pairs ?x"
    by (simp only: uy swar_x1 [OF x])
  have u2a: "unat (x1 AND 0x3333333333333333) = lanes 8 swar_pairs ?x AND 0x3333333333333333"
    and u2b: "unat (drop_bit 2 x1 AND 0x3333333333333333)
                = drop_bit 2 (lanes 8 swar_pairs ?x) AND 0x3333333333333333"
    by (simp_all add: unsigned_and_eq unat_drop_bit_eq u1)
  have s2: "unat (x1 AND 0x3333333333333333) + unat (drop_bit 2 x1 AND 0x3333333333333333)
      = lanes 8 swar_nibbles ?x"
    by (simp only: u2a u2b swar_x2)
  have n68: "lanes 8 swar_nibbles ?x \<le> rep_byte 8 68"
    by (rule lanes_le_rep) (simp add: swar_nibbles_le)
  then have b2: "lanes 8 swar_nibbles ?x \<le> 4919131752989213764"
    by (simp add: rep_byte_8)
  have "unat (x1 AND 0x3333333333333333) + unat (drop_bit 2 x1 AND 0x3333333333333333) < 2 ^ 64"
    unfolding s2 using b2 by simp
  then have "unat x2 = unat (x1 AND 0x3333333333333333) + unat (drop_bit 2 x1 AND 0x3333333333333333)"
    unfolding x2_def using unat_add_lem [of "x1 AND 0x3333333333333333" "drop_bit 2 x1 AND 0x3333333333333333"]
    by simp
  then have u2: "unat x2 = lanes 8 swar_nibbles ?x" by (simp only: s2)
  have "drop_bit 4 (unat x2) \<le> unat x2" by (simp add: drop_bit_eq_div)
  then have "unat x2 + unat (drop_bit 4 x2) < 2 ^ 64"
    using b2 by (simp add: unat_drop_bit_eq u2)
  then have "unat (x2 + drop_bit 4 x2) = unat x2 + unat (drop_bit 4 x2)"
    using unat_add_lem [of x2 "drop_bit 4 x2"] by simp
  then have "unat x3 = (unat x2 + drop_bit 4 (unat x2)) AND 0x0f0f0f0f0f0f0f0f"
    by (simp add: x3_def unsigned_and_eq unat_drop_bit_eq)
  then have u3: "unat x3 = lanes 8 swar_bytes ?x"
    by (simp only: u2 swar_x3)
  have "unat (drop_bit 56 (x3 * 0x0101010101010101))
      = (unat x3 * 0x0101010101010101) mod 2 ^ 64 div 2 ^ 56"
    by (simp add: unat_drop_bit_eq unat_word_ariths drop_bit_eq_div)
  also have "\<dots> = popcount64_nat ?x"
    by (simp only: popcount64_nat_def Let_def swar_x1 [OF x] swar_x2 swar_x3 u3)
  also have "\<dots> = bit_count ?x" by (rule popcount64_nat_bit_count [OF x])
  finally have u4: "unat (drop_bit 56 (x3 * 0x0101010101010101)) = bit_count ?x" .
  have "?x < 2 ^ 64" using x by simp
  then have "bit_count ?x \<le> 64" by (rule bit_count_le)
  then have "take_bit 32 (bit_count ?x) = bit_count ?x"
    by (intro take_bit_nat_eq_self) simp
  then have "unat (ucast (drop_bit 56 (x3 * 0x0101010101010101)) :: u32) = bit_count ?x"
    by (simp add: unsigned_ucast_eq u4)
  then show ?thesis
    by (simp only: popcount64_def Let_def x3_def x2_def x1_def y_def)
qed

lemma card_bits_word: "card {n. bit (w :: 'a::len word) n} = bit_count (unat w)"
proof -
  have "{n. bit w n} = {n. bit (unat w) n}"
    by (auto simp: bit_unsigned_iff)
  then show ?thesis by (simp add: card_bits_nat)
qed

text \<open>\<open>popcount64\<close> returns the number of set bits of its argument.\<close>

lemma popcount64_bit_count: "popcount64 w = of_nat (card {n. bit w n})"
proof -
  have "popcount64 w = of_nat (unat (popcount64 w))" by simp
  then show ?thesis by (simp only: unat_popcount64 card_bits_word)
qed

section \<open>The Hamming kernel\<close>

lemma byte_popcount_enum_aux:
  assumes "lo < 16" "hi < 16"
  shows "byte_popcount_nat (lo + 16 * hi) = bit_count (lo + 16 * hi)"
  using below_16 [OF assms(1)] below_16 [OF assms(2)]
  apply (elim disjE)
  apply (simp_all add: byte_popcount_nat_def bit_count_numerals drop_bit_eq_div
      numeral_2_eq_2 [symmetric] numeral_3_eq_3 [symmetric])
  done

lemma byte_popcount_nat_bit_count:
  assumes "c < 256"
  shows "byte_popcount_nat c = bit_count c"
proof -
  have "c mod 16 < 16" "c div 16 < 16" using assms by simp_all
  from byte_popcount_enum_aux [OF this] show ?thesis by simp
qed

lemma unat_u8_less: "unat (v :: u8) < 256"
  using unsigned_less [of v, where 'a = nat] by simp

lemma unat_add_u8:
  fixes p q :: u8
  assumes "unat p \<le> m" "unat q \<le> m" "2 * m < 256"
  shows "unat (p + q) = unat p + unat q"
proof -
  have "unat p + unat q < 2 ^ 8" using assms by simp
  then show ?thesis using unat_add_lem [of p q] by simp
qed

lemma unat_and_u8: "unat ((p :: u8) AND q) = unat p AND unat q"
  by (rule unsigned_and_eq)

lemma unat_byte_popcount: "unat (byte_popcount v) = bit_count (unat v)"
proof -
  define v1 where "v1 = (v AND 0x55) + (drop_bit 1 v AND 0x55)"
  define v2 where "v2 = (v1 AND 0x33) + (drop_bit 2 v1 AND 0x33)"
  have m55: "unat (p AND (0x55 :: u8)) \<le> 85" for p
    using and_le_nat(2) [of "unat p" 85] by (simp add: unat_and_u8)
  have m33: "unat (p AND (0x33 :: u8)) \<le> 51" for p
    using and_le_nat(2) [of "unat p" 51] by (simp add: unat_and_u8)
  have m0f: "unat (p AND (0x0f :: u8)) \<le> 15" for p
    using and_le_nat(2) [of "unat p" 15] by (simp add: unat_and_u8)
  have u1: "unat v1 = (unat v AND 0x55) + (drop_bit 1 (unat v) AND 0x55)"
    unfolding v1_def by (simp add: unat_add_u8 [OF m55 m55] unat_and_u8 unat_drop_bit_eq)
  have u2: "unat v2 = (unat v1 AND 0x33) + (drop_bit 2 (unat v1) AND 0x33)"
    unfolding v2_def by (simp add: unat_add_u8 [OF m33 m33] unat_and_u8 unat_drop_bit_eq)
  have "unat ((v2 AND 0x0f) + (drop_bit 4 v2 AND 0x0f))
      = (unat v2 AND 0x0f) + (drop_bit 4 (unat v2) AND 0x0f)"
    by (simp add: unat_add_u8 [OF m0f m0f] unat_and_u8 unat_drop_bit_eq)
  then have "unat (byte_popcount v) = byte_popcount_nat (unat v)"
    by (simp only: byte_popcount_def byte_popcount_nat_def Let_def v1_def [symmetric]
        v2_def [symmetric] u1 [symmetric] u2 [symmetric])
  then show ?thesis by (simp add: byte_popcount_nat_bit_count unat_u8_less)
qed

lemma xor_bytes:
  fixes a m y n :: nat
  assumes "a < 256" "m < 256"
  shows "(a + 256 * y) XOR (m + 256 * n) = (a XOR m) + 256 * (y XOR n)"
proof -
  let ?z = "(a + 256 * y) XOR (m + 256 * n)"
  have "take_bit 8 ?z = a XOR m"
    by (simp only: take_bit_xor take8_sum [OF assms(1)] take8_sum [OF assms(2)])
  moreover have "drop_bit 8 ?z = y XOR n"
    by (simp only: drop_bit_xor drop8_sum [OF assms(1)] drop8_sum [OF assms(2)])
  ultimately show ?thesis using split_byte [of ?z] by simp
qed

lemma horner_unat_less: "horner_sum unat 256 (bs :: u8 list) < 256 ^ length bs"
proof (induction bs)
  case Nil
  show ?case by simp
next
  case (Cons b bs)
  have "unat b + 256 * horner_sum unat 256 bs < 256 * 256 ^ length bs"
    by (rule horner_step [OF unat_u8_less Cons.IH])
  then show ?case by simp
qed

lemma unat_horner_u64:
  "length bs \<le> 8 \<Longrightarrow> unat (horner_sum ucast 256 (bs :: u8 list) :: u64) = horner_sum unat 256 bs"
proof (induction bs)
  case Nil
  show ?case by simp
next
  case (Cons b bs)
  let ?H = "horner_sum ucast 256 bs :: u64"
  have ih: "unat ?H = horner_sum unat 256 bs" using Cons by simp
  have "horner_sum unat 256 bs < 256 ^ length bs" by (rule horner_unat_less)
  also have "(256 :: nat) ^ length bs \<le> 256 ^ 7"
    using Cons.prems by (intro power_increasing) simp_all
  finally have h7: "unat ?H < 256 ^ 7" by (simp only: ih)
  have ub: "unat (ucast b :: u64) = unat b"
    using unat_u8_less [of b] by (simp add: unsigned_ucast_eq take_bit_nat_eq_self)
  have "unat (256 :: u64) * unat ?H < 2 ^ 64" using h7 by simp
  then have um: "unat (256 * ?H) = 256 * unat ?H"
    using unat_mult_lem [of 256 ?H] by simp
  have "unat (ucast b :: u64) + unat (256 * ?H) < 2 ^ 64"
    using h7 unat_u8_less [of b] by (simp add: ub um)
  then have "unat (ucast b + 256 * ?H) = unat b + 256 * unat ?H"
    using unat_add_lem [of "ucast b :: u64" "256 * ?H"] by (simp add: ub um)
  then show ?case by (simp add: ih)
qed

lemma horner_xor:
  "length as = length bs \<Longrightarrow>
     horner_sum unat 256 (as :: u8 list) XOR horner_sum unat 256 bs
       = horner_sum unat 256 (map2 (XOR) as bs)"
proof (induction as bs rule: list_induct2)
  case Nil
  show ?case by simp
next
  case (Cons a as b bs)
  have "(unat a + 256 * horner_sum unat 256 as) XOR (unat b + 256 * horner_sum unat 256 bs)
      = (unat a XOR unat b) + 256 * (horner_sum unat 256 as XOR horner_sum unat 256 bs)"
    by (rule xor_bytes [OF unat_u8_less unat_u8_less])
  then show ?case by (simp add: Cons.IH unsigned_xor_eq)
qed

lemma bit_count_horner:
  "bit_count (horner_sum unat 256 (cs :: u8 list)) = sum_list (map (\<lambda>c. bit_count (unat c)) cs)"
proof (induction cs)
  case Nil
  show ?case by (simp add: bit_count.simps [of 0])
next
  case (Cons c cs)
  have "bit_count (unat c + 256 * horner_sum unat 256 cs)
      = bit_count (unat c) + bit_count (horner_sum unat 256 cs)"
    by (rule bit_count_byte [OF unat_u8_less])
  then show ?case by (simp add: Cons.IH)
qed

lemma unat_load64: "unat (load64 p i) = horner_sum unat 256 (map (\<lambda>k. p ! (i + k)) [0..<8])"
  unfolding load64_def by (rule unat_horner_u64) simp

lemma chunk_count:
  "popcount64 (load64 a i XOR load64 b i) = of_nat (\<Sum>j = i..<i + 8. byte_diff a b j)"
proof -
  let ?as = "map (\<lambda>k. a ! (i + k)) [0..<8]"
  let ?bs = "map (\<lambda>k. b ! (i + k)) [0..<8]"
  have "unat (load64 a i XOR load64 b i) = horner_sum unat 256 ?as XOR horner_sum unat 256 ?bs"
    by (simp only: unsigned_xor_eq unat_load64)
  also have "\<dots> = horner_sum unat 256 (map2 (XOR) ?as ?bs)"
    by (rule horner_xor) simp
  finally have "bit_count (unat (load64 a i XOR load64 b i))
      = sum_list (map (\<lambda>c. bit_count (unat c)) (map2 (XOR) ?as ?bs))"
    by (simp only: bit_count_horner)
  also have "map (\<lambda>c. bit_count (unat c)) (map2 (XOR) ?as ?bs)
      = map (\<lambda>k. byte_diff a b (i + k)) [0..<8]"
    by (simp add: zip_map_map zip_same_conv_map byte_diff_def comp_def)
  also have "sum_list (map (\<lambda>k. byte_diff a b (i + k)) [0..<8])
      = (\<Sum>k = 0..<8. byte_diff a b (i + k))"
    by (simp add: interv_sum_list_conv_sum_set_nat)
  also have "\<dots> = (\<Sum>j = i..<i + 8. byte_diff a b j)"
    using sum.shift_bounds_nat_ivl [of "byte_diff a b" 0 i 8] by (simp add: add.commute)
  finally have "unat (popcount64 (load64 a i XOR load64 b i)) = (\<Sum>j = i..<i + 8. byte_diff a b j)"
    by (simp only: unat_popcount64)
  moreover have "popcount64 (load64 a i XOR load64 b i)
      = of_nat (unat (popcount64 (load64 a i XOR load64 b i)))" by simp
  ultimately show ?thesis by (simp only:)
qed

lemma byte_count: "(ucast (byte_popcount (a ! i XOR b ! i)) :: u32) = of_nat (byte_diff a b i)"
proof -
  have "unat (ucast (byte_popcount (a ! i XOR b ! i)) :: u32) = unat (byte_popcount (a ! i XOR b ! i))"
    using unat_u8_less [of "byte_popcount (a ! i XOR b ! i)"]
    by (simp add: unsigned_ucast_eq take_bit_nat_eq_self)
  then have "unat (ucast (byte_popcount (a ! i XOR b ! i)) :: u32) = byte_diff a b i"
    by (simp add: unat_byte_popcount byte_diff_def)
  moreover have "(ucast (byte_popcount (a ! i XOR b ! i)) :: u32)
      = of_nat (unat (ucast (byte_popcount (a ! i XOR b ! i)) :: u32))" by simp
  ultimately show ?thesis by (simp only:)
qed

lemma chunk_loop_eq:
  assumes "i \<le> len64" "8 dvd (len64 - i)"
  shows "chunk_loop a b len64 i dist = (len64, dist + of_nat (\<Sum>j = i..<len64. byte_diff a b j))"
  using assms
proof (induction a b len64 i dist rule: chunk_loop.induct)
  case (1 a b len64 i dist)
  show ?case
  proof (cases "i < len64")
    case False
    with "1.prems" have "i = len64" by simp
    then show ?thesis by (simp add: chunk_loop.simps [of a b len64 len64])
  next
    case True
    from "1.prems"(2) obtain k where k: "len64 - i = 8 * k" by (rule dvdE)
    with True have "k \<noteq> 0" by (intro notI) simp
    then have "1 \<le> k" by simp
    then have "8 * 1 \<le> 8 * k" by (rule mult_le_mono2)
    then have le: "i + 8 \<le> len64" using k by linarith
    have dv: "8 dvd (len64 - (i + 8))"
    proof -
      have "len64 - (i + 8) = 8 * (k - 1)" using k by (simp add: algebra_simps)
      then show ?thesis by simp
    qed
    have split: "(\<Sum>j = i..<len64. byte_diff a b j)
        = (\<Sum>j = i..<i + 8. byte_diff a b j) + (\<Sum>j = i + 8..<len64. byte_diff a b j)"
      using le by (simp add: sum.atLeastLessThan_concat)
    have "chunk_loop a b len64 i dist
        = chunk_loop a b len64 (i + 8) (dist + popcount64 (load64 a i XOR load64 b i))"
      using True by (simp add: chunk_loop.simps [of a b len64 i])
    also have "\<dots> = (len64, dist + popcount64 (load64 a i XOR load64 b i)
        + of_nat (\<Sum>j = i + 8..<len64. byte_diff a b j))"
      using True le dv by (intro "1.IH") simp_all
    finally show ?thesis
      by (simp add: chunk_count split add.assoc)
  qed
qed

lemma tail_loop_eq:
  assumes "i \<le> len"
  shows "tail_loop a b len i dist = dist + of_nat (\<Sum>j = i..<len. byte_diff a b j)"
  using assms
proof (induction a b len i dist rule: tail_loop.induct)
  case (1 a b len i dist)
  show ?case
  proof (cases "i < len")
    case False
    with "1.prems" have "i = len" by simp
    then show ?thesis by (simp add: tail_loop.simps [of a b len len])
  next
    case True
    have split: "(\<Sum>j = i..<len. byte_diff a b j)
        = byte_diff a b i + (\<Sum>j = i + 1..<len. byte_diff a b j)"
      using True by (simp add: sum.atLeast_Suc_lessThan)
    have "tail_loop a b len i dist
        = tail_loop a b len (i + 1) (dist + ucast (byte_popcount (a ! i XOR b ! i)))"
      using True by (simp add: tail_loop.simps [of a b len i])
    also have "\<dots> = dist + ucast (byte_popcount (a ! i XOR b ! i))
        + of_nat (\<Sum>j = i + 1..<len. byte_diff a b j)"
      using True by (intro "1.IH") simp_all
    finally show ?thesis
      by (simp add: byte_count split add.assoc)
  qed
qed

lemma hamming_distance_sum:
  "hamming_distance a b len = of_nat (\<Sum>j = 0..<len. byte_diff a b j)"
proof -
  let ?len64 = "len - len mod 8"
  have le: "?len64 \<le> len" by simp
  have dv: "8 dvd (?len64 - 0)" by (simp add: dvd_minus_mod)
  have c: "chunk_loop a b ?len64 0 0 = (?len64, of_nat (\<Sum>j = 0..<?len64. byte_diff a b j))"
    using chunk_loop_eq [of 0 ?len64 a b 0] dv by simp
  have "(\<Sum>j = 0..<len. byte_diff a b j)
      = (\<Sum>j = 0..<?len64. byte_diff a b j) + (\<Sum>j = ?len64..<len. byte_diff a b j)"
    using le by (simp add: sum.atLeastLessThan_concat)
  then show ?thesis
    by (simp add: hamming_distance_def Let_def c tail_loop_eq [OF le])
qed

lemma byte_diff_card:
  "card {k. k < 8 \<and> bit (a ! i) k \<noteq> bit (b ! i) k} = byte_diff a b i"
proof -
  have "{k. k < 8 \<and> bit (a ! i) k \<noteq> bit (b ! i) k} = {k. bit (a ! i XOR b ! i) k}"
    by (auto simp: bit_xor_iff dest: bit_imp_le_length)
  then show ?thesis by (simp add: card_bits_word byte_diff_def)
qed

lemma differing_bits_sum: "differing_bits a b len = (\<Sum>j = 0..<len. byte_diff a b j)"
proof -
  have "{(i, k). i < len \<and> k < 8 \<and> bit (a ! i) k \<noteq> bit (b ! i) k}
      = (SIGMA i:{0..<len}. {k. k < 8 \<and> bit (a ! i) k \<noteq> bit (b ! i) k})"
    by auto
  then have "differing_bits a b len
      = card (SIGMA i:{0..<len}. {k. k < 8 \<and> bit (a ! i) k \<noteq> bit (b ! i) k})"
    by (simp add: differing_bits_def)
  also have "\<dots> = (\<Sum>i\<in>{0..<len}. card {k. k < 8 \<and> bit (a ! i) k \<noteq> bit (b ! i) k})"
    by (rule card_SigmaI) simp_all
  finally show ?thesis by (simp only: byte_diff_card)
qed

lemma byte_diff_le: "byte_diff a b j \<le> 8"
proof -
  have "unat (a ! j XOR b ! j) < 2 ^ 8"
    using unat_u8_less [of "a ! j XOR b ! j"] by simp
  then show ?thesis unfolding byte_diff_def by (rule bit_count_le)
qed

lemma differing_bits_le: "differing_bits a b len \<le> 8 * len"
proof -
  have "(\<Sum>j = 0..<len. byte_diff a b j) \<le> (\<Sum>j = 0..<len. 8)"
    by (rule sum_mono) (rule byte_diff_le)
  then show ?thesis by (simp add: differing_bits_sum)
qed

text \<open>The distance is the number of differing bits, reduced modulo \<open>2^32\<close>.\<close>

lemma hamming_distance_of_nat: "hamming_distance a b len = of_nat (differing_bits a b len)"
  by (simp only: hamming_distance_sum differing_bits_sum)

text \<open>
  Claim C1 (as amended). For two byte strings of equal length \<open>len\<close> with
  \<open>8\<cdot>len < 2^32\<close>, \<open>hamming_distance\<close> returns exactly the number of bit positions
  in which they differ, a value in \<open>[0, 8\<cdot>len]\<close>: the 64-bit chunk loop and the byte
  loop of the tail together count what the bitwise reference \<open>differing_bits\<close>
  counts. The sum is kept in a \<open>uint32_t\<close>; for longer strings the result is that
  number modulo \<open>2^32\<close> (\<open>hamming_distance_of_nat\<close>).
\<close>

theorem hamming_distance_counts_differing_bits:
  assumes "length a = len" and "length b = len" and "8 * len < 2 ^ 32"
  shows "unat (hamming_distance a b len) = differing_bits a b len
       \<and> differing_bits a b len \<le> 8 * len"
proof -
  have "differing_bits a b len < 2 ^ 32"
    using differing_bits_le [of a b len] assms(3) by simp
  then have "unat (of_nat (differing_bits a b len) :: u32) = differing_bits a b len"
    by (simp add: unat_of_nat)
  then show ?thesis
    by (simp add: hamming_distance_of_nat differing_bits_le)
qed

theorem hamming_distance_counts_differing_bits_witness:
  "length [0, 0, 0, 0, 0, 0, 0, 0, 0 :: u8] = 9 \<and> length [0, 0, 0, 0, 0, 0, 0, 0, 1 :: u8] = 9
   \<and> (8 :: nat) * 9 < 2 ^ 32
   \<and> unat (hamming_distance [0, 0, 0, 0, 0, 0, 0, 0, 0] [0, 0, 0, 0, 0, 0, 0, 0, 1] 9)
       = differing_bits [0, 0, 0, 0, 0, 0, 0, 0, 0] [0, 0, 0, 0, 0, 0, 0, 0, 1] 9
   \<and> differing_bits [0, 0, 0, 0, 0, 0, 0, 0, 0] [0, 0, 0, 0, 0, 0, 0, 0, 1] 9 \<le> 8 * 9"
proof -
  have h1: "length [0, 0, 0, 0, 0, 0, 0, 0, 0 :: u8] = 9"
    and h2: "length [0, 0, 0, 0, 0, 0, 0, 0, 1 :: u8] = 9"
    and h3: "(8 :: nat) * 9 < 2 ^ 32"
    by simp_all
  from hamming_distance_counts_differing_bits [OF h1 h2 h3] h1 h2 h3
  show ?thesis by (intro conjI) (simp_all only:)
qed

lemma byte_diff_replicate:
  "j < n \<Longrightarrow> byte_diff (replicate n 255) (replicate n 0) j = 8"
  by (simp add: byte_diff_def bit_count_numerals)

lemma differing_bits_replicate: "differing_bits (replicate n 255) (replicate n 0) n = 8 * n"
  by (simp add: differing_bits_sum byte_diff_replicate)

text \<open>
  Claim C1 as stated fails for strings of \<open>2^29\<close> bytes (512 MiB) that differ in
  every bit: the \<open>2^32\<close> differing bits are reported as distance 0.
\<close>

theorem hamming_distance_wraps:
  "hamming_distance (replicate (2 ^ 29) 255) (replicate (2 ^ 29) 0) (2 ^ 29) = 0
   \<and> differing_bits (replicate (2 ^ 29) 255) (replicate (2 ^ 29) 0) (2 ^ 29) = 2 ^ 32"
proof -
  have d: "differing_bits (replicate (2 ^ 29) 255) (replicate (2 ^ 29) 0) (2 ^ 29) = 2 ^ 32"
    by (simp only: differing_bits_replicate) simp
  have "hamming_distance (replicate (2 ^ 29) 255) (replicate (2 ^ 29) 0) (2 ^ 29) = 0"
    by (simp only: hamming_distance_of_nat d of_nat_2_32)
  with d show ?thesis by (simp only: simp_thms)
qed

section \<open>Verified queries\<close>

lemma verify_loop_sound:
  assumes "\<forall>(i, d) \<in> set results. unat i < length store
             \<and> d = hamming_distance probe (store ! unat i) (min n (length (store ! unat i))) \<and> d \<le> r"
    and "(ident, dist) \<in> set (verify_loop probe n store r cands results)"
  shows "unat ident < length store
       \<and> dist = hamming_distance probe (store ! unat ident) (min n (length (store ! unat ident)))
       \<and> dist \<le> r"
  using assms
proof (induction cands arbitrary: results)
  case Nil
  then show ?case by auto
next
  case (Cons c cands)
  show ?case
  proof (cases "unat c < length store")
    case False
    with Cons.prems(2) have "(ident, dist) \<in> set (verify_loop probe n store r cands results)"
      by simp
    from Cons.IH [OF Cons.prems(1) this] show ?thesis .
  next
    case True
    let ?d = "hamming_distance probe (store ! unat c) (min n (length (store ! unat c)))"
    let ?res = "if ?d \<le> r then results @ [(c, ?d)] else results"
    have inv: "\<forall>(i, d) \<in> set ?res. unat i < length store
             \<and> d = hamming_distance probe (store ! unat i) (min n (length (store ! unat i))) \<and> d \<le> r"
      using Cons.prems(1) True by auto
    have "(ident, dist) \<in> set (verify_loop probe n store r cands ?res)"
      using Cons.prems(2) True by (simp add: Let_def)
    from Cons.IH [OF inv this] show ?thesis .
  qed
qed

text \<open>
  Claim C3 (as amended). Every entry \<open>(id, dist)\<close> that \<open>querySimilar\<close> returns
  names a stored signature, \<open>dist\<close> is \<open>hamming_distance\<close> over the first
  \<open>min(probeBytes, len(store[id]))\<close> bytes of the probe and of \<open>store[id]\<close>, and
  \<open>dist \<le> r\<close>. When the probe and the stored signature have the same length, this
  is the distance \<open>hamming(probe, store[id])\<close> of the public surface.
\<close>

theorem querySimilar_sound:
  assumes "querySimilar idx probe probeBytes store r = Some results"
    and "(ident, dist) \<in> set results"
  shows "unat ident < length store
       \<and> dist = hamming_distance probe (store ! unat ident)
                  (min probeBytes (length (store ! unat ident)))
       \<and> dist \<le> r
       \<and> (length probe = probeBytes \<and> length (store ! unat ident) = probeBytes
            \<longrightarrow> Hamming [JBuffer probe, JBuffer (store ! unat ident)] = Inr dist)"
proof -
  from assms(1) obtain cands where
    res: "results = sort_key snd (verify_loop probe probeBytes store r cands [])"
    by (auto simp: querySimilar_def split: option.splits)
  have m: "(ident, dist) \<in> set (verify_loop probe probeBytes store r cands [])"
    using assms(2) by (simp add: res)
  have e: "\<forall>(i, d) \<in> set ([] :: (u32 \<times> u32) list). unat i < length store
             \<and> d = hamming_distance probe (store ! unat i) (min probeBytes (length (store ! unat i)))
             \<and> d \<le> r"
    by simp
  from verify_loop_sound [OF e m]
  have s1: "unat ident < length store"
    and s2: "dist = hamming_distance probe (store ! unat ident)
                  (min probeBytes (length (store ! unat ident)))"
    and s3: "dist \<le> r"
    by blast+
  have "Hamming [JBuffer probe, JBuffer (store ! unat ident)] = Inr dist"
    if "length probe = probeBytes" "length (store ! unat ident) = probeBytes"
    using that s2 by (simp add: Hamming_def arg_def)
  with s1 s2 s3 show ?thesis by blast
qed

lemma example_hash:
  "bitsPerBand idx = 8 \<Longrightarrow> bytesPerBand idx = 1 \<Longrightarrow> extractBandHash idx (0 # rest) 0 = Some 0"
  by (simp add: extractBandHash_def byteOffset_def bytesToRead_def unat_size_mul read_byte_def)

lemma example_add:
  "add (new_LSHIndex 1 8) 0 (0 # rest) (Suc (length rest))
     = Some (new_LSHIndex 1 8\<lparr>buckets := [[(0, [0])]]\<rparr>)"
  by (simp add: add_def requiredBytes_eq example_hash new_LSHIndex_def)

lemma example_candidates:
  "findCandidates (new_LSHIndex 1 8\<lparr>buckets := [[(0, [0])]]\<rparr>) [0, 255] 2 = Some [0]"
  by (simp add: findCandidates_def requiredBytes_eq example_hash set_insert_def new_LSHIndex_def)

lemma example_distances:
  "hamming_distance [0, 255] [0] (Suc 0) = 0"
  "hamming_distance [0, 255] [0, 254] (Suc (Suc 0)) = 1"
  by (simp_all add: hamming_distance_sum byte_diff_def bit_count_numerals)

lemma example_query_short:
  "querySimilar (new_LSHIndex 1 8\<lparr>buckets := [[(0, [0])]]\<rparr>) [0, 255] 2 [[0]] 0 = Some [(0, 0)]"
  by (simp add: querySimilar_def example_candidates example_distances)

lemma example_query_equal:
  "querySimilar (new_LSHIndex 1 8\<lparr>buckets := [[(0, [0])]]\<rparr>) [0, 255] 2 [[0, 254]] 1 = Some [(0, 1)]"
  by (simp add: querySimilar_def example_candidates example_distances)

theorem querySimilar_sound_witness:
  "add (new_LSHIndex 1 8) 0 [0, 254] 2 = Some (new_LSHIndex 1 8\<lparr>buckets := [[(0, [0])]]\<rparr>)
   \<and> querySimilar (new_LSHIndex 1 8\<lparr>buckets := [[(0, [0])]]\<rparr>) [0, 255] 2 [[0, 254]] 1 = Some [(0, 1)]
   \<and> Hamming [JBuffer [0, 255], JBuffer [0, 254]] = Inr 1"
proof -
  have m: "((0 :: u32), (1 :: u32)) \<in> set [(0, 1)]" by simp
  from querySimilar_sound [OF example_query_equal m]
  have h: "Hamming [JBuffer [0, 255], JBuffer [0, 254]] = Inr 1" by simp
  have a: "add (new_LSHIndex 1 8) 0 [0, 254] 2 = Some (new_LSHIndex 1 8\<lparr>buckets := [[(0, [0])]]\<rparr>)"
    using example_add [of "[254]"] by (simp add: numeral_2_eq_2)
  show ?thesis by (intro conjI a h example_query_equal)
qed

text \<open>
  Claim C3 as stated, for probes and stored signatures of any lengths, fails: with the
  one-byte signature \<open>[0]\<close> stored under id 0, the two-byte probe \<open>[0, 255]\<close> is
  reported at distance 0 from it at threshold 0, although the two strings differ and
  \<open>hamming\<close> rejects the pair for its unequal lengths.
\<close>

theorem querySimilar_prefix_distance:
  "add (new_LSHIndex 1 8) 0 [0] 1 = Some (new_LSHIndex 1 8\<lparr>buckets := [[(0, [0])]]\<rparr>)
   \<and> querySimilar (new_LSHIndex 1 8\<lparr>buckets := [[(0, [0])]]\<rparr>) [0, 255] 2 [[0]] 0 = Some [(0, 0)]
   \<and> Hamming [JBuffer [0, 255], JBuffer [0]] = Inl (TypeError ''Buffers must have equal length'')"
proof -
  have a: "add (new_LSHIndex 1 8) 0 [0] 1 = Some (new_LSHIndex 1 8\<lparr>buckets := [[(0, [0])]]\<rparr>)"
    using example_add [of "[]"] by simp
  have h: "Hamming [JBuffer [0, 255], JBuffer [0]] = Inl (TypeError ''Buffers must have equal length'')"
    by (simp add: Hamming_def arg_def)
  show ?thesis by (intro conjI a h example_query_short)
qed

section \<open>Exact-match recall\<close>

lemma bucket_find_push:
  "bucket_find (bucket_push m h i) h' =
     (if h' = h then Some ((case bucket_find m h of None \<Rightarrow> [] | Some ids \<Rightarrow> ids) @ [i])
      else bucket_find m h')"
  by (induction m h i rule: bucket_push.induct) auto

lemma posted_push:
  assumes "b < length (buckets idx)"
  shows "posted (idx\<lparr>buckets := (buckets idx)[c := bucket_push (buckets idx ! c) h' i]\<rparr>) b h ident
           \<longleftrightarrow> posted idx b h ident \<or> (c = b \<and> h' = h \<and> i = ident)"
  using assms
  by (cases "c = b") (auto simp: posted_def bucket_find_push split: option.splits)

lemma add_loop_posted_mono:
  assumes "add_loop idx i s bs = Some idx'" "posted idx b h ident" "b < length (buckets idx)"
  shows "posted idx' b h ident"
  using assms
proof (induction bs arbitrary: idx)
  case Nil
  then show ?case by simp
next
  case (Cons c bs)
  from Cons.prems(1) obtain k where k: "extractBandHash idx s (of_nat c) = Some k"
    by (auto split: option.splits)
  let ?idx = "idx\<lparr>buckets := (buckets idx)[c := bucket_push (buckets idx ! c) k i]\<rparr>"
  have "add_loop ?idx i s bs = Some idx'" using Cons.prems(1) by (simp add: k)
  moreover have "posted ?idx b h ident"
    using Cons.prems(2,3) by (simp add: posted_push)
  moreover have "b < length (buckets ?idx)" using Cons.prems(3) by simp
  ultimately show ?case by (rule Cons.IH)
qed

lemma add_loop_posts:
  assumes "add_loop idx ident s bs = Some idx'" "b \<in> set bs" "b < length (buckets idx)"
    and "extractBandHash idx s (of_nat b) = Some h"
  shows "posted idx' b h ident"
  using assms
proof (induction bs arbitrary: idx)
  case Nil
  then show ?case by simp
next
  case (Cons c bs)
  from Cons.prems(1) obtain k where k: "extractBandHash idx s (of_nat c) = Some k"
    by (auto split: option.splits)
  let ?idx = "idx\<lparr>buckets := (buckets idx)[c := bucket_push (buckets idx ! c) k ident]\<rparr>"
  have step: "add_loop ?idx ident s bs = Some idx'" using Cons.prems(1) by (simp add: k)
  have len: "b < length (buckets ?idx)" using Cons.prems(3) by simp
  show ?case
  proof (cases "c = b")
    case True
    then have "k = h" using k Cons.prems(4) by simp
    then have "posted ?idx b h ident"
      using True Cons.prems(3) by (simp add: posted_push)
    from add_loop_posted_mono [OF step this len] show ?thesis .
  next
    case False
    then have "b \<in> set bs" using Cons.prems(2) by simp
    moreover have "extractBandHash ?idx s (of_nat b) = Some h"
      using Cons.prems(4) by simp
    ultimately show ?thesis using step len by (intro Cons.IH)
  qed
qed

lemma add_posted_mono:
  assumes "add idx i s n = Some idx'" "posted idx b h ident" "b < length (buckets idx)"
  shows "posted idx' b h ident"
  using assms add_loop_posted_mono [of idx i s "[0..<unat (numBands idx)]" idx' b h ident]
  by (auto simp: add_def split: if_splits)

lemma add_length:
  assumes "add idx i s n = Some idx'"
  shows "length (buckets idx') = length (buckets idx) \<and> bytesPerBand idx' = bytesPerBand idx"
  using assms add_loop_params [of idx i s "[0..<unat (numBands idx)]" idx']
  by (auto simp: add_def split: if_splits)

lemma run_adds_posted_mono:
  assumes "run_ops idx (map (\<lambda>(i, s). Add i s) adds) = Some idx'" "posted idx b h ident"
    and "b < length (buckets idx)"
  shows "posted idx' b h ident \<and> numBands idx' = numBands idx \<and> bitsPerBand idx' = bitsPerBand idx
       \<and> bytesPerBand idx' = bytesPerBand idx \<and> length (buckets idx') = length (buckets idx)"
  using assms
proof (induction adds arbitrary: idx)
  case Nil
  then show ?case by simp
next
  case (Cons a adds)
  obtain i s where a: "a = (i, s)" by (cases a)
  from Cons.prems(1) obtain idx1 where a1: "add idx i s (length s) = Some idx1"
    and r: "run_ops idx1 (map (\<lambda>(i, s). Add i s) adds) = Some idx'"
    by (auto simp: a split: option.splits)
  have p1: "posted idx1 b h ident" by (rule add_posted_mono [OF a1 Cons.prems(2,3)])
  have l1: "b < length (buckets idx1)" using add_length [OF a1] Cons.prems(3) by simp
  from Cons.IH [OF r p1 l1] add_params [OF a1] add_length [OF a1] show ?case by simp
qed


lemma set_fold_set_insert: "set (fold set_insert ids cands) = set ids \<union> set cands"
  by (induction ids arbitrary: cands) (auto simp: set_insert_def)

lemma findCandidates_loop_mono:
  "findCandidates_loop idx s bs cands = Some cands' \<Longrightarrow> set cands \<subseteq> set cands'"
proof (induction bs arbitrary: cands)
  case Nil
  then show ?case by simp
next
  case (Cons b bs)
  then show ?case
    by (fastforce simp: set_fold_set_insert split: option.splits)
qed

lemma findCandidates_loop_finds:
  assumes "findCandidates_loop idx s bs cands = Some cands'" "b \<in> set bs"
    and "extractBandHash idx s (of_nat b) = Some h" "posted idx b h ident"
  shows "ident \<in> set cands'"
  using assms
proof (induction bs arbitrary: cands)
  case Nil
  then show ?case by simp
next
  case (Cons c bs)
  show ?case
  proof (cases "c = b")
    case True
    from Cons.prems(4) obtain ids where f: "bucket_find (buckets idx ! b) h = Some ids"
      and m: "ident \<in> set ids"
      by (auto simp: posted_def split: option.splits)
    have "findCandidates_loop idx s bs (fold set_insert ids cands) = Some cands'"
      using Cons.prems(1,3) True f by simp
    from findCandidates_loop_mono [OF this] m show ?thesis
      by (auto simp: set_fold_set_insert)
  next
    case False
    then have "b \<in> set bs" using Cons.prems(2) by simp
    moreover from Cons.prems(1) obtain cands1 where
      "findCandidates_loop idx s bs cands1 = Some cands'"
      by (auto split: option.splits)
    ultimately show ?thesis using Cons.prems(3,4) by (intro Cons.IH)
  qed
qed

lemma findCandidates_loop_Some:
  assumes "bytesPerBand idx = (bitsPerBand idx + 7) div 8" "requiredBytes idx \<le> length s"
    and "\<forall>b \<in> set bs. b < unat (numBands idx)"
  shows "\<exists>cands'. findCandidates_loop idx s bs cands = Some cands'"
  using assms(3)
proof (induction bs arbitrary: cands)
  case Nil
  then show ?case by simp
next
  case (Cons b bs)
  obtain h where h: "extractBandHash idx s (of_nat b) = Some h"
    using extractBandHash_in_bounds [OF assms(1) _ assms(2), of b] Cons.prems by auto
  show ?case using Cons.IH Cons.prems by (simp add: h split: option.splits)
qed

lemma verify_loop_mono:
  "set results \<subseteq> set (verify_loop probe n store r cands results)"
proof (induction cands arbitrary: results)
  case Nil
  show ?case by simp
next
  case (Cons c cands)
  show ?case using Cons.IH by (fastforce simp: Let_def)
qed

lemma verify_loop_complete:
  assumes "ident \<in> set cands" "unat ident < length store"
    and "hamming_distance probe (store ! unat ident) (min n (length (store ! unat ident))) \<le> r"
  shows "(ident, hamming_distance probe (store ! unat ident) (min n (length (store ! unat ident))))
           \<in> set (verify_loop probe n store r cands results)"
  using assms(1)
proof (induction cands arbitrary: results)
  case Nil
  then show ?case by simp
next
  case (Cons c cands)
  show ?case
  proof (cases "c = ident")
    case True
    let ?d = "hamming_distance probe (store ! unat ident) (min n (length (store ! unat ident)))"
    have "(ident, ?d) \<in> set (results @ [(ident, ?d)])" by simp
    also have "\<dots> \<subseteq> set (verify_loop probe n store r cands (results @ [(ident, ?d)]))"
      by (rule verify_loop_mono)
    finally show ?thesis using True assms(2,3) by (simp add: Let_def)
  next
    case False
    then have "ident \<in> set cands" using Cons.prems by simp
    then show ?thesis using Cons.IH by (simp add: Let_def)
  qed
qed

lemma hamming_distance_same: "hamming_distance s s n = 0"
  by (simp add: hamming_distance_sum byte_diff_def bit_count.simps [of 0])

lemma run_ops_append:
  "run_ops idx (xs @ ys) = (case run_ops idx xs of None \<Rightarrow> None | Some idx' \<Rightarrow> run_ops idx' ys)"
proof (induction xs arbitrary: idx)
  case Nil
  show ?case by simp
next
  case (Cons x xs)
  show ?case by (cases x) (simp_all add: Cons.IH split: option.splits)
qed

lemma run_adds_Some:
  assumes "index_inv idx"
  shows "\<exists>idx'. run_ops idx ops = Some idx'"
  using assms
proof (induction ops arbitrary: idx)
  case Nil
  show ?case by simp
next
  case (Cons op ops)
  show ?case
  proof (cases op)
    case (Add i s)
    from add_Some [OF Cons.prems, of i s] obtain idx1 where
      "add idx i s (length s) = Some idx1" "index_inv idx1" by blast
    then show ?thesis using Cons.IH [of idx1] Add by simp
  next
    case Clear
    then show ?thesis using Cons.IH [OF index_inv_clear [OF Cons.prems]] by simp
  qed
qed

lemma extractBandHash_cong:
  "bitsPerBand idx' = bitsPerBand idx \<Longrightarrow> bytesPerBand idx' = bytesPerBand idx
     \<Longrightarrow> extractBandHash idx' s b = extractBandHash idx s b"
  by (simp add: extractBandHash_def byteOffset_def bytesToRead_def split: option.splits)

text \<open>
  Claim C4. Let a signature \<open>s\<close> of at least \<open>requiredBytes\<close> bytes be added under
  \<open>ident\<close> to an index with at least one band, after any earlier calls and before
  any number of further adds, and let the store hold \<open>s\<close> at position \<open>ident\<close>.
  Then the query with probe \<open>s\<close> at threshold 0 returns a list that contains
  \<open>(ident, 0)\<close>: the band-hash of band 0 is the one under which \<open>ident\<close> was posted,
  so \<open>ident\<close> is a candidate, and the distance of \<open>s\<close> to itself is 0.
\<close>

theorem exact_match_recall:
  assumes "1 \<le> nb" and "(unat nb * unat bpb + 7) div 8 \<le> length s"
    and "unat ident < length store" and "store ! unat ident = s"
  shows "\<exists>idx results.
           run_ops (new_LSHIndex nb bpb) (before @ Add ident s # map (\<lambda>(i, s). Add i s) after) = Some idx
         \<and> querySimilar idx s (length s) store 0 = Some results
         \<and> (ident, 0) \<in> set results"
proof -
  have pos: "0 < unat nb" using assms(1) by (simp add: word_le_nat_alt)
  from run_ops_totals [OF index_inv_new new_index_totals, of nb bpb before]
  obtain idx0 where r0: "run_ops (new_LSHIndex nb bpb) before = Some idx0" and i0: "index_inv idx0"
    and n0: "numBands idx0 = nb" and w0: "bitsPerBand idx0 = bpb"
    by (auto simp: new_LSHIndex_def)
  have req0: "requiredBytes idx0 \<le> length s"
    using assms(2) by (simp add: requiredBytes_eq n0 w0)
  have b0: "bytesPerBand idx0 = (bitsPerBand idx0 + 7) div 8" and l0: "length (buckets idx0) = unat nb"
    using i0 n0 by (simp_all add: index_inv_def)
  obtain h where h: "extractBandHash idx0 s (of_nat 0) = Some h"
    using extractBandHash_in_bounds [OF b0 _ req0, of 0] pos n0 by auto
  from add_Some [OF i0, of ident s]
  obtain idx1 where a1: "add idx0 ident s (length s) = Some idx1" and i1: "index_inv idx1"
    by blast
  then have al: "add_loop idx0 ident s [0..<unat (numBands idx0)] = Some idx1"
    using req0 by (simp add: add_def)
  have p1: "posted idx1 0 h ident"
    using add_loop_posts [OF al _ _ h] pos n0 l0 by simp
  have len1: "0 < length (buckets idx1)"
    using add_length [OF a1] l0 pos by simp
  have "\<exists>idx2. run_ops idx1 (map (\<lambda>(i, s). Add i s) after) = Some idx2"
    by (rule run_adds_Some [OF i1])
  then obtain idx2 where r2: "run_ops idx1 (map (\<lambda>(i, s). Add i s) after) = Some idx2" by blast
  from run_adds_posted_mono [OF r2 p1 len1] add_params [OF a1] add_length [OF a1]
  have p2: "posted idx2 0 h ident" and n2: "numBands idx2 = nb" and w2: "bitsPerBand idx2 = bitsPerBand idx0"
    and b2: "bytesPerBand idx2 = bytesPerBand idx0" and l2: "length (buckets idx2) = unat nb"
    using n0 l0 by simp_all
  have run: "run_ops (new_LSHIndex nb bpb) (before @ Add ident s # map (\<lambda>(i, s). Add i s) after) = Some idx2"
    by (simp add: run_ops_append r0 a1 r2)
  have h2: "extractBandHash idx2 s (of_nat 0) = Some h"
    using h extractBandHash_cong [OF w2 b2] by simp
  have req2: "requiredBytes idx2 \<le> length s"
    using req0 requiredBytes_cong [of idx2 idx0] n2 n0 w2 by simp
  have bb2: "bytesPerBand idx2 = (bitsPerBand idx2 + 7) div 8"
    using b0 b2 w2 by simp
  obtain cands where c: "findCandidates_loop idx2 s [0..<unat (numBands idx2)] [] = Some cands"
    using findCandidates_loop_Some [OF bb2 req2, of "[0..<unat (numBands idx2)]" "[]"] by auto
  have mem: "ident \<in> set cands"
    using findCandidates_loop_finds [OF c _ h2 p2] pos n2 by simp
  have fc: "findCandidates idx2 s (length s) = Some cands"
    using c req2 by (simp add: findCandidates_def)
  have d0: "hamming_distance s (store ! unat ident) (min (length s) (length (store ! unat ident))) = 0"
    by (simp add: assms(4) hamming_distance_same)
  from verify_loop_complete [OF mem assms(3), of s "length s" 0 "[]"]
  have "(ident, 0) \<in> set (verify_loop s (length s) store 0 cands [])"
    by (simp add: d0)
  then have "(ident, 0) \<in> set (sort_key snd (verify_loop s (length s) store 0 cands []))"
    by simp
  moreover have "querySimilar idx2 s (length s) store 0
      = Some (sort_key snd (verify_loop s (length s) store 0 cands []))"
    by (simp add: querySimilar_def fc)
  ultimately show ?thesis using run by blast
qed

theorem exact_match_recall_witness:
  "\<exists>idx results.
     run_ops (new_LSHIndex 1 8) ([Add 7 [3]] @ Add 0 [0, 255] # map (\<lambda>(i, s). Add i s) [(1, [9])]) = Some idx
     \<and> querySimilar idx [0, 255] (length [0, 255 :: u8]) [[0, 255], [9]] 0 = Some results
     \<and> (0, 0) \<in> set results"
proof -
  have h1: "(1 :: u32) \<le> 1"
    and h2: "(unat (1 :: u32) * unat (8 :: u32) + 7) div 8 \<le> length [0, 255 :: u8]"
    and h3: "unat (0 :: u32) < length [[0, 255], [9 :: u8]]"
    and h4: "[[0, 255], [9 :: u8]] ! unat (0 :: u32) = [0, 255]"
    by simp_all
  show ?thesis by (rule exact_match_recall [OF h1 h2 h3 h4])
qed

end
